theory Spec2Isabelle
  imports Complex_Main
begin

section \<open>Values exchanged with the driver\<close>

text \<open>
  A rejected promise or a thrown exception is a value of type \<open>error\<close>: \<open>Error m\<close> is
  JavaScript's \<^verbatim>\<open>new Error(m)\<close>, \<open>TimeoutError m\<close> the client's timeout error.
  An awaited promise is a value of \<open>error + 'a\<close>, \<open>Inl\<close> when it rejects.
\<close>

datatype error = Error string | TimeoutError string

record resourceTiming =
  responseEnd :: real

text \<open>The fields of \<^verbatim>\<open>network.Request\<close> that the context's event handlers read and write.\<close>

record request =
  request_url :: string
  failureText :: "string option"
  timing :: "resourceTiming option"

datatype response = Response nat

datatype route = Route nat

text \<open>A page: its identity, its opener (if any) and whether it is closed.\<close>

datatype page = Page (page_id: nat) (opener: "page option") (isClosed: bool)

record worker =
  worker_id :: nat
  worker_context :: "string option"

datatype jsval = JUndefined | JNum int | JStr string | JList "jsval list"

datatype bindingSource = BindingSource string

type_synonym binding = "bindingSource \<Rightarrow> jsval list \<Rightarrow> error + jsval"

text \<open>A \<^verbatim>\<open>BindingCall\<close> object: \<open>initializer_name\<close> is \<^verbatim>\<open>_initializer.name\<close>.\<close>

record bindingCall =
  initializer_name :: string
  initializer_args :: "jsval list"
  initializer_source :: bindingSource

text \<open>\<^verbatim>\<open>URLMatch\<close> is a string, a regular expression or a predicate; the latter two are
  objects compared by identity.\<close>

datatype uRLMatch = UrlString string | UrlRegExp nat | UrlFunction nat

text \<open>A \<^verbatim>\<open>network.RouteHandler\<close> as its constructor is called in \<^verbatim>\<open>route()\<close>:
  base URL, URL matcher, handler callback (by identity) and the optional \<^verbatim>\<open>times\<close>.\<close>

record routeHandler =
  rh_baseURL :: "string option"
  rh_url :: uRLMatch
  rh_handler :: nat
  rh_times :: "nat option"

datatype payload =
    PContext string
  | PPage page
  | PRequest request
  | PResponse response
  | PWorker worker

datatype emitter = ContextEmitter string | PageEmitter nat

text \<open>Requests sent over the channel.\<close>

datatype message =
    ExposeBinding string "bool option"
  | SetNetworkInterceptionEnabled bool
  | RouteContinue route

section \<open>Listeners and waiters\<close>

text \<open>
  What a listener registered on the context's emitter does when it is called: resolve the
  promise made in the constructor, settle a waiter, or run application code.
\<close>

datatype action =
    ResolveClosedPromise
  | WaiterTarget nat "(payload \<Rightarrow> bool) option"
  | WaiterGuard nat error
  | AppListener nat

datatype listener = Listener (l_event: string) (l_once: bool) (l_action: action)

datatype outcome = Pending | Resolved payload | Rejected error

record waiter =
  w_outcome :: outcome
  w_timer :: "(nat \<times> string) option"

text \<open>Everything observable from outside, in the order it happens.\<close>

datatype effect =
    Emitted emitter string payload
  | Called nat payload
  | Handled routeHandler route request
  | Sent message
  | Invoked string bindingSource "jsval list"
  | BindingResolved string jsval
  | BindingRejected string error
  | UnhandledRejection error

record waitForEventOptions =
  timeout :: "nat option"
  predicate :: "(payload \<Rightarrow> bool) option"

datatype optionsOrPredicate = IsFunction "payload \<Rightarrow> bool" | IsOptions waitForEventOptions

section \<open>The browser context\<close>

text \<open>
  The fields of \<^verbatim>\<open>BrowserContext\<close> that its event handlers and the methods below read or
  write (the leading underscore of a private field is dropped; \<open>timeoutSettings\<close> is the
  \<^verbatim>\<open>timeout\<close> method of the settings object, \<open>options_baseURL\<close> is \<^verbatim>\<open>_options.baseURL\<close>),
  followed by what the context shares with its surroundings: the listeners of its event
  emitter, the context registries of browsers and browser types (by object identity), the
  waiters alive on the heap, the answers of the remote side and the trace of effects.
\<close>

record browserContext =
  guid :: string
  pages :: "page set"
  routes :: "routeHandler list"
  browser :: "nat option"
  browserType :: "nat option"
  bindings :: "string \<rightharpoonup> binding"
  timeoutSettings :: "waitForEventOptions \<Rightarrow> nat"
  closedPromise :: bool
  options_baseURL :: "string option"
  closed :: bool
  backgroundPages :: "page set"
  serviceWorkers :: "worker set"
  listeners :: "listener list"
  browser_contexts :: "nat \<Rightarrow> string set"
  browserType_contexts :: "nat \<Rightarrow> string set option"
  waiters :: "nat \<rightharpoonup> waiter"
  nextWaiter :: nat
  channel :: "message \<Rightarrow> error + unit"
  trace :: "effect list"

text \<open>
  Modelled from the spec: the members of the \<^verbatim>\<open>Events\<close> table (events.ts is not under
  src/) that the context uses, one name for each kind of event the spec speaks of. The code
  refers to them by member only; of the strings, the theorems use only that the name of the
  close event differs from the names of the other events of the context.
\<close>

definition Events_BrowserContext_Close :: string where
  "Events_BrowserContext_Close = ''close''"

definition Events_BrowserContext_Page :: string where
  "Events_BrowserContext_Page = ''page''"

definition Events_BrowserContext_BackgroundPage :: string where
  "Events_BrowserContext_BackgroundPage = ''backgroundpage''"

definition Events_BrowserContext_ServiceWorker :: string where
  "Events_BrowserContext_ServiceWorker = ''serviceworker''"

definition Events_BrowserContext_Request :: string where
  "Events_BrowserContext_Request = ''request''"

definition Events_BrowserContext_Response :: string where
  "Events_BrowserContext_Response = ''response''"

definition Events_BrowserContext_RequestFailed :: string where
  "Events_BrowserContext_RequestFailed = ''requestfailed''"

definition Events_BrowserContext_RequestFinished :: string where
  "Events_BrowserContext_RequestFinished = ''requestfinished''"

definition Events_Page_Popup :: string where
  "Events_Page_Popup = ''popup''"

definition Events_Page_Request :: string where
  "Events_Page_Request = ''request''"

definition Events_Page_Response :: string where
  "Events_Page_Response = ''response''"

definition Events_Page_RequestFailed :: string where
  "Events_Page_RequestFailed = ''requestfailed''"

definition Events_Page_RequestFinished :: string where
  "Events_Page_RequestFinished = ''requestfinished''"

subsection \<open>Promises\<close>

definition log :: "effect \<Rightarrow> browserContext \<Rightarrow> browserContext" where
  "log e s = s\<lparr>trace := trace s @ [e]\<rparr>"

text \<open>\<^verbatim>\<open>p.catch(h)\<close>: a rejection of \<open>p\<close> is replaced by what \<open>h\<close> returns.\<close>

definition catch :: "error + 'a \<Rightarrow> (error \<Rightarrow> error + 'a) \<Rightarrow> error + 'a" where
  "catch p h = (case p of Inl e \<Rightarrow> h e | Inr v \<Rightarrow> Inr v)"

text \<open>A promise nobody awaits: when it rejects, the rejection is unhandled.\<close>

definition floating :: "error + 'a \<Rightarrow> browserContext \<Rightarrow> browserContext" where
  "floating p s = (case p of Inl e \<Rightarrow> log (UnhandledRejection e) s | Inr v \<Rightarrow> s)"

text \<open>A call on the channel: the request goes out, the remote side's answer comes back.\<close>

definition send :: "message \<Rightarrow> browserContext \<Rightarrow> (error + unit) \<times> browserContext" where
  "send m s = (channel s m, log (Sent m) s)"

text \<open>
  Modelled from the spec: \<^verbatim>\<open>ChannelOwner._wrapApiCall\<close> (channelOwner.ts is not under src/)
  runs the callback once and settles as the callback does; a failure reaches the caller
  rewritten by \<open>rewrite\<close> (the spec has user-visible errors include the name of the failing
  operation).
\<close>

definition wrapApiCall ::
  "(error \<Rightarrow> error) \<Rightarrow> (browserContext \<Rightarrow> (error + 'a) \<times> browserContext)
     \<Rightarrow> browserContext \<Rightarrow> (error + 'a) \<times> browserContext" where
  "wrapApiCall rewrite func s =
     (case func s of (Inl e, s') \<Rightarrow> (Inl (rewrite e), s') | (Inr v, s') \<Rightarrow> (Inr v, s'))"

subsection \<open>The event emitter and the waiter\<close>

fun action_waiter :: "action \<Rightarrow> nat option" where
  "action_waiter ResolveClosedPromise = None"
| "action_waiter (WaiterTarget w pred) = Some w"
| "action_waiter (WaiterGuard w e) = Some w"
| "action_waiter (AppListener i) = None"

definition owned_by :: "nat \<Rightarrow> listener \<Rightarrow> bool" where
  "owned_by w l = (action_waiter (l_action l) = Some w)"

text \<open>
  Modelled from the spec: the \<^verbatim>\<open>Waiter\<close> class (waiter.ts is not under src/). A waiter is
  resolved exactly once, by the first of its branches to fire; on resolution every
  subscription and the timer of the waiter are unregistered. \<open>settle\<close> is that resolution,
  and does nothing to a waiter already settled.
\<close>

definition settle :: "nat \<Rightarrow> outcome \<Rightarrow> browserContext \<Rightarrow> browserContext" where
  "settle w out s =
     (case waiters s w of
        None \<Rightarrow> s
      | Some wt \<Rightarrow>
          (case w_outcome wt of
             Pending \<Rightarrow>
               s\<lparr>waiters := (waiters s)(w \<mapsto> \<lparr>w_outcome = out, w_timer = None\<rparr>),
                 listeners := filter (\<lambda>l. \<not> owned_by w l) (listeners s)\<rparr>
           | Resolved p \<Rightarrow> s
           | Rejected e \<Rightarrow> s))"

definition accepts :: "(payload \<Rightarrow> bool) option \<Rightarrow> payload \<Rightarrow> bool" where
  "accepts pred p = (case pred of None \<Rightarrow> True | Some f \<Rightarrow> f p)"

text \<open>Calling one listener with the payload; a \<^verbatim>\<open>once\<close> listener is removed first.\<close>

definition deliver :: "payload \<Rightarrow> listener \<Rightarrow> browserContext \<Rightarrow> browserContext" where
  "deliver p l s =
     (let s1 = (if l_once l then s\<lparr>listeners := remove1 l (listeners s)\<rparr> else s)
      in case l_action l of
           ResolveClosedPromise \<Rightarrow> s1\<lparr>closedPromise := True\<rparr>
         | WaiterTarget w pred \<Rightarrow> (if accepts pred p then settle w (Resolved p) s1 else s1)
         | WaiterGuard w e \<Rightarrow> settle w (Rejected e) s1
         | AppListener i \<Rightarrow> log (Called i p) s1)"

text \<open>
  \<^verbatim>\<open>this.emit(event, payload)\<close>: the listeners registered for the event at the time of the
  call are called in registration order.
\<close>

definition emit :: "string \<Rightarrow> payload \<Rightarrow> browserContext \<Rightarrow> browserContext" where
  "emit ev p s =
     fold (deliver p) (filter (\<lambda>l. l_event l = ev) (listeners s))
       (log (Emitted (ContextEmitter (guid s)) ev p) s)"

text \<open>\<^verbatim>\<open>page.emit(event, payload)\<close>: the listeners of a page live with the page.\<close>

definition page_emit :: "page \<Rightarrow> string \<Rightarrow> payload \<Rightarrow> browserContext \<Rightarrow> browserContext" where
  "page_emit pg ev p s = log (Emitted (PageEmitter (page_id pg)) ev p) s"

definition on :: "string \<Rightarrow> action \<Rightarrow> browserContext \<Rightarrow> browserContext" where
  "on ev a s = s\<lparr>listeners := listeners s @ [Listener ev False a]\<rparr>"

definition once :: "string \<Rightarrow> action \<Rightarrow> browserContext \<Rightarrow> browserContext" where
  "once ev a s = s\<lparr>listeners := listeners s @ [Listener ev True a]\<rparr>"

text \<open>Modelled from the spec: \<^verbatim>\<open>Waiter.createForEvent\<close>, a new waiter with no branch yet.\<close>

definition Waiter_createForEvent :: "string \<Rightarrow> browserContext \<Rightarrow> nat \<times> browserContext" where
  "Waiter_createForEvent ev s =
     (nextWaiter s,
      s\<lparr>waiters := (waiters s)(nextWaiter s \<mapsto> \<lparr>w_outcome = Pending, w_timer = None\<rparr>),
        nextWaiter := Suc (nextWaiter s)\<rparr>)"

text \<open>Modelled from the spec: \<^verbatim>\<open>rejectOnTimeout(duration, message)\<close> starts a timer that
  rejects the wait if it fires first.\<close>

definition rejectOnTimeout :: "nat \<Rightarrow> nat \<Rightarrow> string \<Rightarrow> browserContext \<Rightarrow> browserContext" where
  "rejectOnTimeout w duration msg s =
     (case waiters s w of
        None \<Rightarrow> s
      | Some wt \<Rightarrow> s\<lparr>waiters := (waiters s)(w \<mapsto> wt\<lparr>w_timer := Some (duration, msg)\<rparr>)\<rparr>)"

text \<open>Modelled from the spec: \<^verbatim>\<open>rejectOnEvent(emitter, eventName, error)\<close> rejects the wait
  if that event fires first; the emitter is always the context itself here.\<close>

definition rejectOnEvent :: "nat \<Rightarrow> string \<Rightarrow> error \<Rightarrow> browserContext \<Rightarrow> browserContext" where
  "rejectOnEvent w ev e s = on ev (WaiterGuard w e) s"

text \<open>Modelled from the spec: \<^verbatim>\<open>waiter.waitForEvent(emitter, eventName, predicate)\<close>
  registers a subscription that resolves the wait when the event fires and the predicate,
  if there is one, accepts the payload.\<close>

definition Waiter_waitForEvent ::
  "nat \<Rightarrow> string \<Rightarrow> (payload \<Rightarrow> bool) option \<Rightarrow> browserContext \<Rightarrow> browserContext" where
  "Waiter_waitForEvent w ev pred s = on ev (WaiterTarget w pred) s"

text \<open>Modelled from the spec: \<^verbatim>\<open>waiter.dispose()\<close> unregisters every branch; idempotent.\<close>

definition dispose :: "nat \<Rightarrow> browserContext \<Rightarrow> browserContext" where
  "dispose w s =
     s\<lparr>listeners := filter (\<lambda>l. \<not> owned_by w l) (listeners s),
       waiters := (case waiters s w of
                     None \<Rightarrow> waiters s
                   | Some wt \<Rightarrow> (waiters s)(w \<mapsto> wt\<lparr>w_timer := None\<rparr>))\<rparr>"

text \<open>The timer of a waiter fires.\<close>

definition timerFired :: "nat \<Rightarrow> browserContext \<Rightarrow> browserContext" where
  "timerFired w s =
     (case waiters s w of
        None \<Rightarrow> s
      | Some wt \<Rightarrow>
          (case w_timer wt of
             None \<Rightarrow> s
           | Some (d, msg) \<Rightarrow> settle w (Rejected (TimeoutError msg)) s))"

definition waiter_outcome :: "browserContext \<Rightarrow> nat \<Rightarrow> outcome" where
  "waiter_outcome s w = (case waiters s w of None \<Rightarrow> Pending | Some wt \<Rightarrow> w_outcome wt)"

subsection \<open>Handlers of the events pushed by the driver\<close>

definition onPage :: "page \<Rightarrow> browserContext \<Rightarrow> browserContext" where
  "onPage pg s =
     (let s1 = emit Events_BrowserContext_Page (PPage pg) (s\<lparr>pages := insert pg (pages s)\<rparr>)
      in case opener pg of
           None \<Rightarrow> s1
         | Some op \<Rightarrow> (if \<not> isClosed op then page_emit op Events_Page_Popup (PPage pg) s1 else s1))"

definition onRequest :: "request \<Rightarrow> page option \<Rightarrow> browserContext \<Rightarrow> browserContext" where
  "onRequest req pg s =
     (let s1 = emit Events_BrowserContext_Request (PRequest req) s
      in case pg of
           None \<Rightarrow> s1
         | Some p \<Rightarrow> page_emit p Events_Page_Request (PRequest req) s1)"

definition onResponse :: "response \<Rightarrow> page option \<Rightarrow> browserContext \<Rightarrow> browserContext" where
  "onResponse resp pg s =
     (let s1 = emit Events_BrowserContext_Response (PResponse resp) s
      in case pg of
           None \<Rightarrow> s1
         | Some p \<Rightarrow> page_emit p Events_Page_Response (PResponse resp) s1)"

text \<open>\<^verbatim>\<open>failureText || null\<close>: an absent or empty text becomes null.\<close>

definition orNull :: "string option \<Rightarrow> string option" where
  "orNull t = (case t of None \<Rightarrow> None | Some x \<Rightarrow> (if x = [] then None else Some x))"

definition setResponseEnd :: "real \<Rightarrow> request \<Rightarrow> request" where
  "setResponseEnd t req =
     (case timing req of
        None \<Rightarrow> req
      | Some tm \<Rightarrow> req\<lparr>timing := Some (tm\<lparr>responseEnd := t\<rparr>)\<rparr>)"

definition onRequestFailed ::
  "request \<Rightarrow> real \<Rightarrow> string option \<Rightarrow> page option \<Rightarrow> browserContext \<Rightarrow> browserContext" where
  "onRequestFailed req responseEndTiming ftext pg s =
     (let req1 = setResponseEnd responseEndTiming (req\<lparr>failureText := orNull ftext\<rparr>);
          s1 = emit Events_BrowserContext_RequestFailed (PRequest req1) s
      in case pg of
           None \<Rightarrow> s1
         | Some p \<Rightarrow> page_emit p Events_Page_RequestFailed (PRequest req1) s1)"

definition onRequestFinished ::
  "request \<Rightarrow> real \<Rightarrow> page option \<Rightarrow> browserContext \<Rightarrow> browserContext" where
  "onRequestFinished req responseEndTiming pg s =
     (let req1 = setResponseEnd responseEndTiming req;
          s1 = emit Events_BrowserContext_RequestFinished (PRequest req1) s
      in case pg of
           None \<Rightarrow> s1
         | Some p \<Rightarrow> page_emit p Events_Page_RequestFinished (PRequest req1) s1)"

text \<open>\<^verbatim>\<open>routeHandler.handle(route, request)\<close>: the handler is invoked.\<close>

definition handle :: "routeHandler \<Rightarrow> route \<Rightarrow> request \<Rightarrow> browserContext \<Rightarrow> browserContext" where
  "handle h r req s = log (Handled h r req) s"

text \<open>
  The loop of \<^verbatim>\<open>_onRoute\<close> over the handlers: \<open>Some\<close> when a handler matched (the function
  returns from inside the loop), \<open>None\<close> when the loop ran to its end. The parameter
  \<open>matches\<close> is \<^verbatim>\<open>RouteHandler.matches\<close> (network.ts).
\<close>

fun onRoute_loop ::
  "(routeHandler \<Rightarrow> string \<Rightarrow> bool) \<Rightarrow> routeHandler list \<Rightarrow> route \<Rightarrow> request
     \<Rightarrow> browserContext \<Rightarrow> browserContext option" where
  "onRoute_loop matches [] r req s = None"
| "onRoute_loop matches (h # hs) r req s =
     (if matches h (request_url req) then Some (handle h r req s)
      else onRoute_loop matches hs r req s)"

definition onRoute ::
  "(routeHandler \<Rightarrow> string \<Rightarrow> bool) \<Rightarrow> route \<Rightarrow> request \<Rightarrow> browserContext \<Rightarrow> browserContext" where
  "onRoute matches r req s =
     (case onRoute_loop matches (routes s) r req s of
        Some s' \<Rightarrow> s'
      | None \<Rightarrow>
          (case send (RouteContinue r) s of
             (p, s1) \<Rightarrow> floating (catch p (\<lambda>e. Inr ())) s1))"

text \<open>
  Modelled from the spec: \<^verbatim>\<open>BindingCall.call\<close> (page.ts is not under src/) invokes the
  callback with the call's source and arguments and reports the result, or the failure
  raised by the callback, to the remote invoker; it never fails itself.
\<close>

definition bindingCall_call ::
  "bindingCall \<Rightarrow> binding \<Rightarrow> browserContext \<Rightarrow> (error + unit) \<times> browserContext" where
  "bindingCall_call bc func s =
     (let s1 = log (Invoked (initializer_name bc) (initializer_source bc) (initializer_args bc)) s
      in case func (initializer_source bc) (initializer_args bc) of
           Inr v \<Rightarrow> (Inr (), log (BindingResolved (initializer_name bc) v) s1)
         | Inl e \<Rightarrow> (Inr (), log (BindingRejected (initializer_name bc) e) s1))"

definition onBinding :: "bindingCall \<Rightarrow> browserContext \<Rightarrow> (error + unit) \<times> browserContext" where
  "onBinding bc s =
     (case bindings s (initializer_name bc) of
        None \<Rightarrow> (Inr (), s)
      | Some func \<Rightarrow> bindingCall_call bc func s)"

definition onClose :: "browserContext \<Rightarrow> browserContext" where
  "onClose s =
     (let s1 = s\<lparr>closed := True\<rparr>;
          s2 = (case browser s1 of
                  None \<Rightarrow> s1
                | Some b \<Rightarrow>
                    s1\<lparr>browser_contexts := (browser_contexts s1)(b := browser_contexts s1 b - {guid s1})\<rparr>);
          s3 = (case browserType s2 of
                  None \<Rightarrow> s2
                | Some t \<Rightarrow>
                    (case browserType_contexts s2 t of
                       None \<Rightarrow> s2
                     | Some cs \<Rightarrow>
                         s2\<lparr>browserType_contexts := (browserType_contexts s2)(t \<mapsto> cs - {guid s2})\<rparr>))
      in emit Events_BrowserContext_Close (PContext (guid s3)) s3)"

text \<open>The events the constructor subscribes to on the channel, with their parameters.\<close>

datatype push_event =
    BindingCallEvent bindingCall
  | CloseEvent
  | PageEvent page
  | RouteEvent route request
  | BackgroundPageEvent page
  | ServiceWorkerEvent worker
  | RequestEvent request "page option"
  | RequestFailedEvent request "string option" real "page option"
  | RequestFinishedEvent request real "page option"
  | ResponseEvent response "page option"

text \<open>What the listeners installed by the constructor on the channel do with an event.\<close>

fun channel_on ::
  "(routeHandler \<Rightarrow> string \<Rightarrow> bool) \<Rightarrow> push_event \<Rightarrow> browserContext \<Rightarrow> browserContext" where
  "channel_on matches (BindingCallEvent bc) s =
     (case onBinding bc s of (p, s1) \<Rightarrow> floating p s1)"
| "channel_on matches CloseEvent s = onClose s"
| "channel_on matches (PageEvent pg) s = onPage pg s"
| "channel_on matches (RouteEvent r req) s = onRoute matches r req s"
| "channel_on matches (BackgroundPageEvent pg) s =
     emit Events_BrowserContext_BackgroundPage (PPage pg)
       (s\<lparr>backgroundPages := insert pg (backgroundPages s)\<rparr>)"
| "channel_on matches (ServiceWorkerEvent wk) s =
     (let serviceWorker = wk\<lparr>worker_context := Some (guid s)\<rparr>
      in emit Events_BrowserContext_ServiceWorker (PWorker serviceWorker)
           (s\<lparr>serviceWorkers := insert serviceWorker (serviceWorkers s)\<rparr>))"
| "channel_on matches (RequestEvent req pg) s = onRequest req pg s"
| "channel_on matches (RequestFailedEvent req ftext t pg) s = onRequestFailed req t ftext pg s"
| "channel_on matches (RequestFinishedEvent req t pg) s = onRequestFinished req t pg s"
| "channel_on matches (ResponseEvent resp pg) s = onResponse resp pg s"

subsection \<open>The methods of the context\<close>

text \<open>
  The state the constructor leaves: no pages, routes or bindings, not closed, and the
  \<^verbatim>\<open>once\<close> listener of the closed promise registered on the close event. \<open>parent\<close> is
  \<open>Some b\<close> when the parent object is the browser \<open>b\<close>.
\<close>

definition constructor ::
  "nat option \<Rightarrow> string \<Rightarrow> (waitForEventOptions \<Rightarrow> nat) \<Rightarrow> (message \<Rightarrow> error + unit)
     \<Rightarrow> (nat \<Rightarrow> string set) \<Rightarrow> (nat \<Rightarrow> string set option) \<Rightarrow> browserContext" where
  "constructor parent g ts ch bcs btcs =
     once Events_BrowserContext_Close ResolveClosedPromise
       \<lparr>guid = g, pages = {}, routes = [], browser = parent, browserType = None,
        bindings = Map.empty, timeoutSettings = ts, closedPromise = False,
        options_baseURL = None, closed = False, backgroundPages = {}, serviceWorkers = {},
        listeners = [], browser_contexts = bcs, browserType_contexts = btcs,
        waiters = Map.empty, nextWaiter = 0, channel = ch, trace = []\<rparr>"

text \<open>\<^verbatim>\<open>_setBrowserType\<close>: adding to a registry that is undefined throws, after the field
  has been assigned.\<close>

definition setBrowserType :: "nat \<Rightarrow> browserContext \<Rightarrow> (error + unit) \<times> browserContext" where
  "setBrowserType t s =
     (let s1 = s\<lparr>browserType := Some t\<rparr>
      in case browserType_contexts s1 t of
           None \<Rightarrow> (Inl (Error ''TypeError''), s1)
         | Some cs \<Rightarrow>
             (Inr (), s1\<lparr>browserType_contexts :=
                           (browserType_contexts s1)(t \<mapsto> insert (guid s1) cs)\<rparr>))"

definition exposeBinding ::
  "(error \<Rightarrow> error) \<Rightarrow> string \<Rightarrow> binding \<Rightarrow> bool option \<Rightarrow> browserContext
     \<Rightarrow> (error + unit) \<times> browserContext" where
  "exposeBinding rewrite name callback options_handle =
     wrapApiCall rewrite (\<lambda>s.
       case send (ExposeBinding name options_handle) s of
         (Inl e, s1) \<Rightarrow> (Inl e, s1)
       | (Inr u, s1) \<Rightarrow> (Inr (), s1\<lparr>bindings := (bindings s1)(name \<mapsto> callback)\<rparr>))"

definition exposeFunction ::
  "(error \<Rightarrow> error) \<Rightarrow> string \<Rightarrow> (jsval list \<Rightarrow> error + jsval) \<Rightarrow> browserContext
     \<Rightarrow> (error + unit) \<times> browserContext" where
  "exposeFunction rewrite name callback =
     wrapApiCall rewrite (\<lambda>s.
       case send (ExposeBinding name None) s of
         (Inl e, s1) \<Rightarrow> (Inl e, s1)
       | (Inr u, s1) \<Rightarrow>
           (let binding = (\<lambda>source args. callback args)
            in (Inr (), s1\<lparr>bindings := (bindings s1)(name \<mapsto> binding)\<rparr>)))"

definition route ::
  "(error \<Rightarrow> error) \<Rightarrow> uRLMatch \<Rightarrow> nat \<Rightarrow> nat option \<Rightarrow> browserContext
     \<Rightarrow> (error + unit) \<times> browserContext" where
  "route rewrite url handler options_times =
     wrapApiCall rewrite (\<lambda>s.
       let s1 = s\<lparr>routes := \<lparr>rh_baseURL = options_baseURL s, rh_url = url,
                             rh_handler = handler, rh_times = options_times\<rparr> # routes s\<rparr>
       in if length (routes s1) = 1 then send (SetNetworkInterceptionEnabled True) s1
          else (Inr (), s1))"

definition unroute ::
  "(error \<Rightarrow> error) \<Rightarrow> uRLMatch \<Rightarrow> nat option \<Rightarrow> browserContext
     \<Rightarrow> (error + unit) \<times> browserContext" where
  "unroute rewrite url handler =
     wrapApiCall rewrite (\<lambda>s.
       let s1 = s\<lparr>routes := filter (\<lambda>r. rh_url r \<noteq> url \<or>
                                        (case handler of None \<Rightarrow> False
                                         | Some h \<Rightarrow> rh_handler r \<noteq> h)) (routes s)\<rparr>
       in if length (routes s1) = 0 then send (SetNetworkInterceptionEnabled False) s1
          else (Inr (), s1))"

text \<open>
  \<^verbatim>\<open>waitForEvent\<close> up to its \<^verbatim>\<open>await\<close>: the waiter is created and its branches are
  installed; the result is the waiter the call is suspended on.
\<close>

definition waitForEvent ::
  "string \<Rightarrow> optionsOrPredicate \<Rightarrow> browserContext \<Rightarrow> nat \<times> browserContext" where
  "waitForEvent event optionsOrPredicate s =
     (let timeout = timeoutSettings s
            (case optionsOrPredicate of
               IsFunction f \<Rightarrow> \<lparr>timeout = None, predicate = None\<rparr>
             | IsOptions opts \<Rightarrow> opts);
          predicate = (case optionsOrPredicate of
                         IsFunction f \<Rightarrow> Some f
                       | IsOptions opts \<Rightarrow> predicate opts)
      in case Waiter_createForEvent event s of
           (waiter, s1) \<Rightarrow>
             (let s2 = rejectOnTimeout waiter timeout
                         (''Timeout while waiting for event '' @ [CHR 0x22] @ event @ [CHR 0x22]) s1;
                  s3 = (if event \<noteq> Events_BrowserContext_Close
                        then rejectOnEvent waiter Events_BrowserContext_Close
                               (Error ''Context closed'') s2
                        else s2)
              in (waiter, Waiter_waitForEvent waiter event predicate s3)))"

text \<open>
  \<^verbatim>\<open>waitForEvent\<close> from its \<^verbatim>\<open>await\<close> on: while the waiter is pending so is the call; a
  resolved waiter is disposed and its value returned; a rejection leaves through
  \<^verbatim>\<open>_wrapApiCall\<close>. The first component is the state of the promise returned to the caller.
\<close>

definition waitForEvent_resume ::
  "(error \<Rightarrow> error) \<Rightarrow> nat \<Rightarrow> browserContext \<Rightarrow> outcome \<times> browserContext" where
  "waitForEvent_resume rewrite waiter s =
     (case waiter_outcome s waiter of
        Pending \<Rightarrow> (Pending, s)
      | Resolved result \<Rightarrow> (Resolved result, dispose waiter s)
      | Rejected e \<Rightarrow> (Rejected (rewrite e), s))"

text \<open>A call of one of the methods above by the application; \<open>ResumeWaitForEvent\<close> is
  the continuation of a \<^verbatim>\<open>waitForEvent\<close> call.\<close>

datatype api_call =
    CallWaitForEvent string optionsOrPredicate
  | ResumeWaitForEvent nat
  | CallRoute uRLMatch nat "nat option"
  | CallUnroute uRLMatch "nat option"
  | CallExposeBinding string binding "bool option"
  | CallExposeFunction string "jsval list \<Rightarrow> error + jsval"

fun call :: "(error \<Rightarrow> error) \<Rightarrow> api_call \<Rightarrow> browserContext \<Rightarrow> browserContext" where
  "call rewrite (CallWaitForEvent event optionsOrPredicate) s =
     snd (waitForEvent event optionsOrPredicate s)"
| "call rewrite (ResumeWaitForEvent waiter) s = snd (waitForEvent_resume rewrite waiter s)"
| "call rewrite (CallRoute url handler options_times) s =
     snd (route rewrite url handler options_times s)"
| "call rewrite (CallUnroute url handler) s = snd (unroute rewrite url handler s)"
| "call rewrite (CallExposeBinding name callback options_handle) s =
     snd (exposeBinding rewrite name callback options_handle s)"
| "call rewrite (CallExposeFunction name callback) s =
     snd (exposeFunction rewrite name callback s)"

text \<open>What can happen to a context, one thing at a time: an event pushed by the driver,
  the timer of a waiter firing, or a call by the application.\<close>

datatype occurrence = Push push_event | TimerFired nat | Call api_call

fun occur ::
  "(error \<Rightarrow> error) \<Rightarrow> (routeHandler \<Rightarrow> string \<Rightarrow> bool) \<Rightarrow> occurrence
     \<Rightarrow> browserContext \<Rightarrow> browserContext" where
  "occur rewrite matches (Push ev) s = channel_on matches ev s"
| "occur rewrite matches (TimerFired w) s = timerFired w s"
| "occur rewrite matches (Call c) s = call rewrite c s"

definition run ::
  "(error \<Rightarrow> error) \<Rightarrow> (routeHandler \<Rightarrow> string \<Rightarrow> bool) \<Rightarrow> occurrence list
     \<Rightarrow> browserContext \<Rightarrow> browserContext" where
  "run rewrite matches occs s = fold (occur rewrite matches) occs s"

section \<open>The stream reader\<close>

text \<open>
  What \<^verbatim>\<open>push\<close> hands to the consumer of a \<^verbatim>\<open>Readable\<close>: a buffer, or null for the end
  of the stream.
\<close>

datatype item = Chunk string | EndOfStream

datatype stream_message = StreamRead nat | StreamClose

text \<open>
  A \<^verbatim>\<open>StreamImpl\<close> with the part of its \<^verbatim>\<open>Readable\<close> state that decides whether \<^verbatim>\<open>_read\<close>
  and \<^verbatim>\<open>_destroy\<close> are called, and the remote side of its channel: \<open>remote_read n size\<close>
  is the \<^verbatim>\<open>binary\<close> field of the answer to the \<open>n\<close>-th read request (counted from 0),
  \<open>remote_close\<close> the answer to a close request.
\<close>

record streamImpl =
  remote_read :: "nat \<Rightarrow> nat \<Rightarrow> error + string"
  remote_close :: "error + unit"
  sent :: "stream_message list"
  pushed :: "item list"
  ended :: bool
  destroyed :: bool
  stream_errors :: "error list"
  unhandled :: "error list"

definition reads_sent :: "streamImpl \<Rightarrow> nat" where
  "reads_sent s = length (filter (\<lambda>m. m \<noteq> StreamClose) (sent s))"

text \<open>\<^verbatim>\<open>Readable.push\<close>: null ends the stream; data after the end is an error of the stream.\<close>

definition Readable_push :: "string option \<Rightarrow> streamImpl \<Rightarrow> streamImpl" where
  "Readable_push chunk s =
     (case chunk of
        None \<Rightarrow> (if ended s then s else s\<lparr>pushed := pushed s @ [EndOfStream], ended := True\<rparr>)
      | Some b \<Rightarrow>
          (if ended s then s\<lparr>stream_errors := stream_errors s @ [Error ''stream.push() after EOF'']\<rparr>
           else s\<lparr>pushed := pushed s @ [Chunk b]\<rparr>))"

text \<open>
  \<^verbatim>\<open>StreamImpl._read\<close>. The parameter \<open>decode\<close> is \<^verbatim>\<open>Buffer.from(_, 'base64')\<close>. An
  empty string is falsy, as is a missing field.
\<close>

definition StreamImpl_read ::
  "(string \<Rightarrow> string) \<Rightarrow> nat \<Rightarrow> streamImpl \<Rightarrow> (error + unit) \<times> streamImpl" where
  "StreamImpl_read decode sz s =
     (let s1 = s\<lparr>sent := sent s @ [StreamRead sz]\<rparr>
      in case remote_read s (reads_sent s) sz of
           Inl e \<Rightarrow> (Inl e, s1)
         | Inr binary \<Rightarrow>
             (if binary \<noteq> [] then (Inr (), Readable_push (Some (decode binary)) s1)
              else (Inr (), Readable_push None s1)))"

text \<open>
  A pull of the consumer: \<^verbatim>\<open>Readable\<close> calls \<^verbatim>\<open>_read\<close> unless the stream has ended or is
  destroyed, and does not await the promise the async \<^verbatim>\<open>_read\<close> returns.
\<close>

definition pull :: "(string \<Rightarrow> string) \<Rightarrow> nat \<Rightarrow> streamImpl \<Rightarrow> streamImpl" where
  "pull decode sz s =
     (if ended s \<or> destroyed s then s
      else case StreamImpl_read decode sz s of
             (Inl e, s1) \<Rightarrow> s1\<lparr>unhandled := unhandled s1 @ [e]\<rparr>
           | (Inr u, s1) \<Rightarrow> s1)"

text \<open>
  \<^verbatim>\<open>StreamImpl._destroy\<close>: the close request is sent and a failure of it is caught; then
  \<^verbatim>\<open>Readable._destroy\<close> passes the error on to the callback. The result is what the
  callback receives.
\<close>

definition StreamImpl_destroy :: "error option \<Rightarrow> streamImpl \<Rightarrow> error option \<times> streamImpl" where
  "StreamImpl_destroy err s =
     (let s1 = s\<lparr>sent := sent s @ [StreamClose]\<rparr>
      in case catch (remote_close s) (\<lambda>e. Inr ()) of
           Inl e \<Rightarrow> (err, s1\<lparr>unhandled := unhandled s1 @ [e]\<rparr>)
         | Inr u \<Rightarrow> (err, s1))"

text \<open>\<^verbatim>\<open>Readable.destroy\<close>: only the first call reaches \<^verbatim>\<open>_destroy\<close>.\<close>

definition destroy :: "error option \<Rightarrow> streamImpl \<Rightarrow> error option \<times> streamImpl" where
  "destroy err s =
     (if destroyed s then (None, s)
      else StreamImpl_destroy err (s\<lparr>destroyed := True\<rparr>))"

text \<open>The stream \<^verbatim>\<open>Stream.stream()\<close> returns: nothing sent, nothing pushed.\<close>

definition stream :: "(nat \<Rightarrow> nat \<Rightarrow> error + string) \<Rightarrow> error + unit \<Rightarrow> streamImpl" where
  "stream rd cl =
     \<lparr>remote_read = rd, remote_close = cl, sent = [], pushed = [], ended = False,
      destroyed = False, stream_errors = [], unhandled = []\<rparr>"

fun pulls :: "(string \<Rightarrow> string) \<Rightarrow> nat list \<Rightarrow> streamImpl \<Rightarrow> streamImpl" where
  "pulls decode [] s = s"
| "pulls decode (sz # szs) s = pulls decode szs (pull decode sz s)"

section \<open>Observations\<close>

fun is_emission :: "effect \<Rightarrow> bool" where
  "is_emission (Emitted em ev p) = True"
| "is_emission e = False"

text \<open>The local emissions so far, on the context and on pages.\<close>

definition emissions :: "browserContext \<Rightarrow> effect list" where
  "emissions s = filter is_emission (trace s)"

text \<open>
  The spec's fan-out of one wire event: one emission at the scope of the context and, if
  a page is identified, one at the scope of that page.
\<close>

definition spec_fan_out ::
  "string \<Rightarrow> string \<Rightarrow> string \<Rightarrow> payload \<Rightarrow> page option \<Rightarrow> effect list" where
  "spec_fan_out g context_event page_event p pg =
     Emitted (ContextEmitter g) context_event p #
       (case pg of None \<Rightarrow> [] | Some q \<Rightarrow> [Emitted (PageEmitter (page_id q)) page_event p])"

text \<open>
  Waiter identities are allocated in order, so a listener that belongs to a waiter belongs
  to one allocated already; such a listener is never a \<^verbatim>\<open>once\<close> listener.
\<close>

definition wellformed :: "browserContext \<Rightarrow> bool" where
  "wellformed s \<longleftrightarrow>
     (\<forall>l\<in>set (listeners s). \<forall>w. owned_by w l \<longrightarrow> w < nextWaiter s \<and> \<not> l_once l)"

text \<open>
  What an emission with payload \<open>p\<close> to the listeners \<open>ls\<close>, in this order, does to a
  pending waiter \<open>w\<close>: the first of its branches that fires decides.
\<close>

fun verdict :: "nat \<Rightarrow> payload \<Rightarrow> listener list \<Rightarrow> outcome" where
  "verdict w p [] = Pending"
| "verdict w p (l # ls) =
     (case l_action l of
        ResolveClosedPromise \<Rightarrow> verdict w p ls
      | WaiterTarget w' pred \<Rightarrow>
          (if w' = w \<and> accepts pred p then Resolved p else verdict w p ls)
      | WaiterGuard w' e \<Rightarrow> (if w' = w then Rejected e else verdict w p ls)
      | AppListener i \<Rightarrow> verdict w p ls)"

text \<open>
  An outcome of waiter \<open>w\<close> is justified by its branches: a value by a target subscription
  whose predicate accepts it, an error by a guard subscription carrying it or by the timer.
\<close>

definition justified ::
  "nat \<Rightarrow> listener list \<Rightarrow> (nat \<times> string) option \<Rightarrow> outcome \<Rightarrow> bool" where
  "justified w ls tm out =
     (case out of
        Pending \<Rightarrow> False
      | Resolved p \<Rightarrow> (\<exists>l\<in>set ls. \<exists>pred. l_action l = WaiterTarget w pred \<and> accepts pred p)
      | Rejected e \<Rightarrow>
          (\<exists>l\<in>set ls. l_action l = WaiterGuard w e)
          \<or> (\<exists>d msg. tm = Some (d, msg) \<and> e = TimeoutError msg))"

text \<open>Waiter \<open>w\<close> is pending, with the subscriptions \<open>ls\<close> and the timer \<open>tm\<close>.\<close>

definition awaiting ::
  "nat \<Rightarrow> listener list \<Rightarrow> (nat \<times> string) option \<Rightarrow> browserContext \<Rightarrow> bool" where
  "awaiting w ls tm s \<longleftrightarrow>
     waiters s w = Some \<lparr>w_outcome = Pending, w_timer = tm\<rparr>
     \<and> filter (owned_by w) (listeners s) = ls"

text \<open>Waiter \<open>w\<close>, which had the subscriptions \<open>ls\<close> and the timer \<open>tm\<close>, is settled.\<close>

definition settled ::
  "nat \<Rightarrow> listener list \<Rightarrow> (nat \<times> string) option \<Rightarrow> browserContext \<Rightarrow> bool" where
  "settled w ls tm s \<longleftrightarrow>
     (\<exists>out. justified w ls tm out \<and> waiters s w = Some \<lparr>w_outcome = out, w_timer = None\<rparr>)"

definition tracked ::
  "nat \<Rightarrow> listener list \<Rightarrow> (nat \<times> string) option \<Rightarrow> browserContext \<Rightarrow> bool" where
  "tracked w ls tm s \<longleftrightarrow>
     wellformed s \<and> w < nextWaiter s \<and> (awaiting w ls tm s \<or> settled w ls tm s)"

text \<open>The timeout, the predicate, the timeout message and the subscriptions of the waiter
  that \<^verbatim>\<open>waitForEvent\<close> sets up.\<close>

definition wait_timeout :: "optionsOrPredicate \<Rightarrow> browserContext \<Rightarrow> nat" where
  "wait_timeout oop s =
     timeoutSettings s (case oop of IsFunction f \<Rightarrow> \<lparr>timeout = None, predicate = None\<rparr>
                        | IsOptions opts \<Rightarrow> opts)"

definition wait_predicate :: "optionsOrPredicate \<Rightarrow> (payload \<Rightarrow> bool) option" where
  "wait_predicate oop = (case oop of IsFunction f \<Rightarrow> Some f | IsOptions opts \<Rightarrow> predicate opts)"

definition wait_message :: "string \<Rightarrow> string" where
  "wait_message event = ''Timeout while waiting for event '' @ [CHR 0x22] @ event @ [CHR 0x22]"

definition wait_branches :: "nat \<Rightarrow> string \<Rightarrow> optionsOrPredicate \<Rightarrow> listener list" where
  "wait_branches w event oop =
     (if event \<noteq> Events_BrowserContext_Close
      then [Listener Events_BrowserContext_Close False (WaiterGuard w (Error ''Context closed''))]
      else [])
     @ [Listener event False (WaiterTarget w (wait_predicate oop))]"

section \<open>Concrete inputs\<close>

definition demo_context :: browserContext where
  "demo_context =
     constructor (Some 0) ''context@1''
       (\<lambda>opts. case timeout opts of None \<Rightarrow> 30000 | Some t \<Rightarrow> t)
       (\<lambda>m. Inr ()) (\<lambda>b. {''context@1''}) (\<lambda>t. None)"

definition demo_options :: optionsOrPredicate where
  "demo_options = IsOptions \<lparr>timeout = None, predicate = None\<rparr>"

text \<open>A predicate that accepts no payload.\<close>

definition demo_reject :: "payload \<Rightarrow> bool" where
  "demo_reject p = False"

definition demo_request :: request where
  "demo_request = \<lparr>request_url = ''https://example.com/'', failureText = None, timing = None\<rparr>"

text \<open>Handler 1 registered for \<^verbatim>\<open>*\<close>, then handler 2 for \<^verbatim>\<open>*\<close>.\<close>

definition demo_routed :: browserContext where
  "demo_routed =
     snd (route id (UrlString ''*'') 2 None (snd (route id (UrlString ''*'') 1 None demo_context)))"

definition demo_matches :: "routeHandler \<Rightarrow> string \<Rightarrow> bool" where
  "demo_matches h u = (rh_url h = UrlString ''*'' \<or> rh_url h = UrlString u)"

text \<open>A remote side that refuses every request.\<close>

definition demo_refused :: browserContext where
  "demo_refused = demo_context\<lparr>channel := (\<lambda>m. Inl (Error ''Target closed''))\<rparr>"

definition demo_callback :: binding where
  "demo_callback source args = Inr (JList args)"

text \<open>The mock source of the spec: the chunks \<^verbatim>\<open>abc\<close> and \<^verbatim>\<open>def\<close>, then nothing.\<close>

definition demo_stream :: streamImpl where
  "demo_stream =
     stream (\<lambda>n sz. if n = 0 then Inr ''YWJj'' else if n = 1 then Inr ''ZGVm'' else Inr [])
       (Inl (Error ''Target closed''))"

definition demo_decode :: "string \<Rightarrow> string" where
  "demo_decode b = (if b = ''YWJj'' then ''abc'' else if b = ''ZGVm'' then ''def'' else [])"

section \<open>Properties\<close>

lemma onRoute_loop_first:
  "\<forall>h'\<in>set pre. \<not> matches h' (request_url req) \<Longrightarrow> matches h (request_url req) \<Longrightarrow>
     onRoute_loop matches (pre @ h # post) r req s = Some (handle h r req s)"
  by (induction pre) simp_all

lemma onRoute_loop_none:
  "\<forall>h\<in>set hs. \<not> matches h (request_url req) \<Longrightarrow> onRoute_loop matches hs r req s = None"
  by (induction hs) simp_all

lemma route_routes:
  "routes (snd (route rewrite url handler tms s)) =
     \<lparr>rh_baseURL = options_baseURL s, rh_url = url, rh_handler = handler, rh_times = tms\<rparr>
       # routes s"
  by (simp add: route_def wrapApiCall_def Let_def send_def log_def split: sum.splits prod.splits)

text \<open>
  Claim C1. \<^verbatim>\<open>route()\<close> puts the new handler at the front of the handler list, whatever the
  remote side answers. On a route event the handlers are tried in the order of the list:
  the first one whose matcher accepts the URL of the request is invoked, and nothing else
  happens; when no handler matches, the request is continued and a failure of that
  continuation leaves no trace (no unhandled rejection).
\<close>

theorem C1_route_precedence:
  "routes (snd (route rewrite url handler tms s)) =
     \<lparr>rh_baseURL = options_baseURL s, rh_url = url, rh_handler = handler, rh_times = tms\<rparr>
       # routes s
   \<and> (\<forall>pre h post.
         routes s = pre @ h # post \<and> (\<forall>h'\<in>set pre. \<not> matches h' (request_url req))
           \<and> matches h (request_url req)
         \<longrightarrow> channel_on matches (RouteEvent r req) s = log (Handled h r req) s)
   \<and> ((\<forall>h\<in>set (routes s). \<not> matches h (request_url req))
         \<longrightarrow> channel_on matches (RouteEvent r req) s = log (Sent (RouteContinue r)) s)"
proof (intro conjI allI impI)
  show "routes (snd (route rewrite url handler tms s)) =
     \<lparr>rh_baseURL = options_baseURL s, rh_url = url, rh_handler = handler, rh_times = tms\<rparr>
       # routes s"
    by (rule route_routes)
next
  fix pre h post
  assume "routes s = pre @ h # post \<and> (\<forall>h'\<in>set pre. \<not> matches h' (request_url req))
           \<and> matches h (request_url req)"
  then show "channel_on matches (RouteEvent r req) s = log (Handled h r req) s"
    by (simp add: onRoute_def onRoute_loop_first handle_def)
next
  assume "\<forall>h\<in>set (routes s). \<not> matches h (request_url req)"
  then have "onRoute_loop matches (routes s) r req s = None"
    by (rule onRoute_loop_none)
  then show "channel_on matches (RouteEvent r req) s = log (Sent (RouteContinue r)) s"
    by (simp add: onRoute_def send_def catch_def floating_def split: sum.splits)
qed

text \<open>
  Claim C6. When the remote registration succeeds, \<^verbatim>\<open>exposeBinding\<close> and
  \<^verbatim>\<open>exposeFunction\<close> succeed and store the callback (for \<^verbatim>\<open>exposeFunction\<close>, the adapter
  that drops the source argument) under the name, replacing whatever was registered there;
  the only failure either of them can end in is the failure of the remote call.
\<close>

theorem C6_last_write_wins:
  "(channel s (ExposeBinding name h) = Inr () \<longrightarrow>
      fst (exposeBinding rewrite name cb h s) = Inr ()
      \<and> bindings (snd (exposeBinding rewrite name cb h s)) = (bindings s)(name \<mapsto> cb))
   \<and> (channel s (ExposeBinding name None) = Inr () \<longrightarrow>
      fst (exposeFunction rewrite name fn s) = Inr ()
      \<and> bindings (snd (exposeFunction rewrite name fn s)) =
          (bindings s)(name \<mapsto> (\<lambda>source args. fn args)))
   \<and> (\<forall>e. fst (exposeBinding rewrite name cb h s) = Inl e \<longrightarrow>
          (\<exists>e'. channel s (ExposeBinding name h) = Inl e' \<and> e = rewrite e'))
   \<and> (\<forall>e. fst (exposeFunction rewrite name fn s) = Inl e \<longrightarrow>
          (\<exists>e'. channel s (ExposeBinding name None) = Inl e' \<and> e = rewrite e'))"
  by (auto simp add: exposeBinding_def exposeFunction_def wrapApiCall_def send_def log_def Let_def
      split: sum.splits prod.splits)

text \<open>
  Claim C9. When the remote registration fails, \<^verbatim>\<open>exposeBinding\<close> and \<^verbatim>\<open>exposeFunction\<close>
  fail with that error and the binding registry is as it was: the only thing that happened
  is the request sent.
\<close>

theorem C9_failed_registration:
  "(channel s (ExposeBinding name h) = Inl e \<longrightarrow>
      exposeBinding rewrite name cb h s = (Inl (rewrite e), log (Sent (ExposeBinding name h)) s)
      \<and> bindings (snd (exposeBinding rewrite name cb h s)) = bindings s)
   \<and> (channel s (ExposeBinding name None) = Inl e \<longrightarrow>
      exposeFunction rewrite name fn s = (Inl (rewrite e), log (Sent (ExposeBinding name None)) s)
      \<and> bindings (snd (exposeFunction rewrite name fn s)) = bindings s)"
  by (simp add: exposeBinding_def exposeFunction_def wrapApiCall_def send_def log_def)

text \<open>
  Claim C7. A binding call whose name has no callback in the registry changes nothing:
  no callback is invoked, nothing is reported, no rejection is left unhandled.
\<close>

theorem C7_unknown_binding_dropped:
  "bindings s (initializer_name bc) = None \<longrightarrow>
     onBinding bc s = (Inr (), s) \<and> channel_on matches (BindingCallEvent bc) s = s"
  by (simp add: onBinding_def floating_def)

text \<open>
  Claim C4. A pull on a stream that has not ended issues exactly one read request, for the
  requested size. An answer with data pushes the decoded chunk and the stream goes on; an
  answer without data pushes the end of the stream. Once the stream has ended, any further
  pulls change nothing: no request is sent and nothing is pushed.
\<close>

theorem C4_pull:
  "sent (snd (StreamImpl_read decode sz s)) = sent s @ [StreamRead sz]
   \<and> (\<not> ended s \<and> \<not> destroyed s \<longrightarrow> sent (pull decode sz s) = sent s @ [StreamRead sz])
   \<and> (\<forall>b. \<not> ended s \<and> \<not> destroyed s \<and> remote_read s (reads_sent s) sz = Inr b \<and> b \<noteq> []
        \<longrightarrow> pushed (pull decode sz s) = pushed s @ [Chunk (decode b)]
            \<and> \<not> ended (pull decode sz s))
   \<and> (\<not> ended s \<and> \<not> destroyed s \<and> remote_read s (reads_sent s) sz = Inr []
        \<longrightarrow> pushed (pull decode sz s) = pushed s @ [EndOfStream]
            \<and> ended (pull decode sz s))
   \<and> (ended s \<longrightarrow> pulls decode szs s = s)"
proof -
  have "ended s \<Longrightarrow> pulls decode szs s = s"
    by (induction szs) (simp_all add: pull_def)
  then show ?thesis
    by (auto simp add: pull_def StreamImpl_read_def Readable_push_def Let_def split: sum.splits)
qed

text \<open>
  Claim C5. \<^verbatim>\<open>_destroy\<close> sends one close request whatever the state of the stream, leaves no
  rejection unhandled and no stream error whatever the remote side answers, and hands the
  callback the error it was given; this also holds when it runs a second time. Through
  \<^verbatim>\<open>destroy\<close>, the first call sends the close request and a second call does nothing.
\<close>

theorem C5_destroy:
  "sent (snd (StreamImpl_destroy err s)) = sent s @ [StreamClose]
   \<and> unhandled (snd (StreamImpl_destroy err s)) = unhandled s
   \<and> stream_errors (snd (StreamImpl_destroy err s)) = stream_errors s
   \<and> fst (StreamImpl_destroy err s) = err
   \<and> unhandled (snd (StreamImpl_destroy err' (snd (StreamImpl_destroy err s)))) = unhandled s
   \<and> (\<not> destroyed s \<longrightarrow> sent (snd (destroy err s)) = sent s @ [StreamClose])
   \<and> destroy err' (snd (destroy err s)) = (None, snd (destroy err s))"
  by (simp add: StreamImpl_destroy_def destroy_def catch_def Let_def split: sum.splits)




lemma settle_frame:
  "guid (settle w out s) = guid s" "trace (settle w out s) = trace s"
  by (simp_all add: settle_def split: option.splits outcome.splits)

lemma deliver_frame:
  "guid (deliver p l s) = guid s" "emissions (deliver p l s) = emissions s"
  by (simp_all add: deliver_def Let_def settle_frame emissions_def log_def split: action.splits)

lemma fold_deliver_frame:
  "guid (fold (deliver p) ls s) = guid s \<and> emissions (fold (deliver p) ls s) = emissions s"
  by (induction ls arbitrary: s) (simp_all add: deliver_frame)

lemma emit_emissions:
  "emissions (emit ev p s) = emissions s @ [Emitted (ContextEmitter (guid s)) ev p]"
  "guid (emit ev p s) = guid s"
  by (simp_all add: emit_def fold_deliver_frame) (simp_all add: emissions_def log_def)

lemma page_emit_emissions:
  "emissions (page_emit pg ev p s) = emissions s @ [Emitted (PageEmitter (page_id pg)) ev p]"
  by (simp add: page_emit_def emissions_def log_def)

text \<open>
  Claim C8. Each request, response, requestFailed and requestFinished event adds to the
  local emissions exactly the spec's fan-out: one emission on the context and, if and only if
  the event names a page, one on that page; so one or two emissions.
\<close>

theorem C8_fan_out:
  "emissions (channel_on matches (RequestEvent req pg) s) =
     emissions s @ spec_fan_out (guid s) Events_BrowserContext_Request Events_Page_Request
                     (PRequest req) pg
   \<and> emissions (channel_on matches (ResponseEvent resp pg) s) =
       emissions s @ spec_fan_out (guid s) Events_BrowserContext_Response Events_Page_Response
                       (PResponse resp) pg
   \<and> emissions (channel_on matches (RequestFailedEvent req ftext t pg) s) =
       emissions s @ spec_fan_out (guid s) Events_BrowserContext_RequestFailed
                       Events_Page_RequestFailed
                       (PRequest (setResponseEnd t (req\<lparr>failureText := orNull ftext\<rparr>))) pg
   \<and> emissions (channel_on matches (RequestFinishedEvent req t pg) s) =
       emissions s @ spec_fan_out (guid s) Events_BrowserContext_RequestFinished
                       Events_Page_RequestFinished (PRequest (setResponseEnd t req)) pg
   \<and> length (spec_fan_out g ce pe p pg) = (if pg = None then 1 else 2)"
  by (simp add: onRequest_def onResponse_def onRequestFailed_def onRequestFinished_def Let_def
      emit_emissions page_emit_emissions spec_fan_out_def split: option.splits)


lemma demo_routed_routes:
  "routes demo_routed =
     [\<lparr>rh_baseURL = None, rh_url = UrlString ''*'', rh_handler = 2, rh_times = None\<rparr>,
      \<lparr>rh_baseURL = None, rh_url = UrlString ''*'', rh_handler = 1, rh_times = None\<rparr>]"
  by (simp add: demo_routed_def route_routes demo_context_def constructor_def once_def
      route_def wrapApiCall_def send_def log_def Let_def)

lemma demo_routed_trace:
  "trace demo_routed = [Sent (SetNetworkInterceptionEnabled True)]"
  by (simp add: demo_routed_def demo_context_def constructor_def once_def
      route_def wrapApiCall_def send_def log_def Let_def)

theorem C1_route_precedence_witness:
  "trace (channel_on demo_matches (RouteEvent (Route 5) demo_request) demo_routed) =
     [Sent (SetNetworkInterceptionEnabled True),
      Handled \<lparr>rh_baseURL = None, rh_url = UrlString ''*'', rh_handler = 2, rh_times = None\<rparr>
        (Route 5) demo_request]
   \<and> trace (channel_on demo_matches (RouteEvent (Route 5) demo_request) demo_refused) =
       [Sent (RouteContinue (Route 5))]"
proof -
  let ?B = "\<lparr>rh_baseURL = None, rh_url = UrlString ''*'', rh_handler = 2, rh_times = None\<rparr>"
  let ?A = "\<lparr>rh_baseURL = None, rh_url = UrlString ''*'', rh_handler = 1, rh_times = None\<rparr>"
  have m: "demo_matches ?B (request_url demo_request)"
    by (simp add: demo_matches_def)
  have "channel_on demo_matches (RouteEvent (Route 5) demo_request) demo_routed =
          log (Handled ?B (Route 5) demo_request) demo_routed"
    using C1_route_precedence [where s = demo_routed and matches = demo_matches
        and req = demo_request and r = "Route 5", THEN conjunct2, THEN conjunct1,
        rule_format, of "[]" ?B "[?A]"] m
    by (simp add: demo_routed_routes)
  moreover have "routes demo_refused = []"
    by (simp add: demo_refused_def demo_context_def constructor_def once_def)
  then have "channel_on demo_matches (RouteEvent (Route 5) demo_request) demo_refused =
          log (Sent (RouteContinue (Route 5))) demo_refused"
    using C1_route_precedence [where s = demo_refused and matches = demo_matches
        and req = demo_request and r = "Route 5", THEN conjunct2, THEN conjunct2]
    by simp
  moreover have "trace demo_refused = []"
    by (simp add: demo_refused_def demo_context_def constructor_def once_def)
  ultimately show ?thesis
    by (simp add: log_def demo_routed_trace)
qed

theorem C6_last_write_wins_witness:
  "bindings (snd (exposeBinding id ''foo'' demo_callback None
                (snd (exposeBinding id ''foo'' (\<lambda>source args. Inr JUndefined) None demo_context))))
     ''foo'' = Some demo_callback
   \<and> fst (exposeBinding id ''foo'' demo_callback None
            (snd (exposeBinding id ''foo'' (\<lambda>source args. Inr JUndefined) None demo_context)))
       = Inr ()"
proof -
  let ?s1 = "snd (exposeBinding id ''foo'' (\<lambda>source args. Inr JUndefined) None demo_context)"
  have "channel ?s1 (ExposeBinding ''foo'' None) = Inr ()"
    by (simp add: exposeBinding_def wrapApiCall_def send_def log_def demo_context_def
        constructor_def once_def)
  then show ?thesis
    using C6_last_write_wins [where s = ?s1 and name = "''foo''" and h = None
        and cb = demo_callback and rewrite = id, THEN conjunct1]
    by simp
qed

theorem C9_failed_registration_witness:
  "bindings (snd (exposeBinding id ''foo'' demo_callback None demo_refused)) = Map.empty
   \<and> fst (exposeBinding id ''foo'' demo_callback None demo_refused) = Inl (Error ''Target closed'')
   \<and> bindings (snd (exposeFunction id ''foo'' (\<lambda>args. Inr JUndefined) demo_refused)) = Map.empty"
proof -
  have c: "channel demo_refused (ExposeBinding ''foo'' None) = Inl (Error ''Target closed'')"
    by (simp add: demo_refused_def)
  have b: "bindings demo_refused = Map.empty"
    by (simp add: demo_refused_def demo_context_def constructor_def once_def)
  show ?thesis
    using C9_failed_registration [where s = demo_refused and name = "''foo''" and h = None
        and e = "Error ''Target closed''" and rewrite = id and cb = demo_callback
        and fn = "\<lambda>args. Inr JUndefined"] c b
    by (simp add: log_def)
qed

theorem C7_unknown_binding_dropped_witness:
  "channel_on demo_matches
     (BindingCallEvent \<lparr>initializer_name = ''foo'', initializer_args = [JNum 1, JNum 2],
                        initializer_source = BindingSource ''page@1''\<rparr>) demo_context
   = demo_context"
proof -
  have "bindings demo_context ''foo'' = None"
    by (simp add: demo_context_def constructor_def once_def)
  then show ?thesis
    using C7_unknown_binding_dropped [where s = demo_context and matches = demo_matches
        and bc = "\<lparr>initializer_name = ''foo'', initializer_args = [JNum 1, JNum 2],
                        initializer_source = BindingSource ''page@1''\<rparr>"]
    by (simp del: channel_on.simps)
qed

lemma demo_pull1:
  "pull demo_decode 10 demo_stream =
     demo_stream\<lparr>sent := [StreamRead 10], pushed := [Chunk ''abc'']\<rparr>"
  by (simp add: pull_def StreamImpl_read_def Readable_push_def reads_sent_def demo_stream_def
      stream_def demo_decode_def Let_def)

lemma demo_pull2:
  "pull demo_decode 10 (pull demo_decode 10 demo_stream) =
     demo_stream\<lparr>sent := [StreamRead 10, StreamRead 10], pushed := [Chunk ''abc'', Chunk ''def'']\<rparr>"
  by (simp add: demo_pull1)
     (simp add: pull_def StreamImpl_read_def Readable_push_def reads_sent_def demo_stream_def
      stream_def demo_decode_def Let_def)

lemma demo_pull3:
  "pull demo_decode 10 (pull demo_decode 10 (pull demo_decode 10 demo_stream)) =
     demo_stream\<lparr>sent := [StreamRead 10, StreamRead 10, StreamRead 10],
                  pushed := [Chunk ''abc'', Chunk ''def'', EndOfStream], ended := True\<rparr>"
  by (simp add: demo_pull2)
     (simp add: pull_def StreamImpl_read_def Readable_push_def reads_sent_def demo_stream_def
      stream_def demo_decode_def Let_def)

theorem C4_pull_witness:
  "pushed (pulls demo_decode [10, 10, 10, 10] demo_stream) =
     [Chunk ''abc'', Chunk ''def'', EndOfStream]
   \<and> sent (pulls demo_decode [10, 10, 10, 10] demo_stream) =
     [StreamRead 10, StreamRead 10, StreamRead 10]"
proof -
  let ?s3 = "pull demo_decode 10 (pull demo_decode 10 (pull demo_decode 10 demo_stream))"
  have "ended ?s3"
    by (simp add: demo_pull3)
  then have "pulls demo_decode [10] ?s3 = ?s3"
    using C4_pull [where s = ?s3 and decode = demo_decode and szs = "[10]"]
    by simp
  then have "pulls demo_decode [10, 10, 10, 10] demo_stream = ?s3"
    by simp
  then show ?thesis
    by (simp add: demo_pull3)
qed

theorem C5_destroy_witness:
  "sent (snd (destroy None (pulls demo_decode [10, 10, 10] demo_stream))) =
     [StreamRead 10, StreamRead 10, StreamRead 10, StreamClose]
   \<and> unhandled (snd (destroy None (pulls demo_decode [10, 10, 10] demo_stream))) = []"
proof -
  let ?s3 = "pulls demo_decode [10, 10, 10] demo_stream"
  have e: "?s3 = demo_stream\<lparr>sent := [StreamRead 10, StreamRead 10, StreamRead 10],
                  pushed := [Chunk ''abc'', Chunk ''def'', EndOfStream], ended := True\<rparr>"
    by (simp add: demo_pull3)
  have d: "\<not> destroyed ?s3"
    by (subst e) (simp add: demo_stream_def stream_def)
  have "sent (snd (destroy None ?s3)) = sent ?s3 @ [StreamClose]"
    using C5_destroy [where s = ?s3 and err = None] d by blast
  moreover have "unhandled (snd (destroy None ?s3)) = []"
    by (subst e) (simp add: destroy_def StreamImpl_destroy_def catch_def demo_stream_def stream_def)
  ultimately show ?thesis
    by (simp only: e) simp
qed

theorem C8_fan_out_witness:
  "emissions (channel_on demo_matches (RequestEvent demo_request (Some (Page 7 None False)))
               demo_context) =
     [Emitted (ContextEmitter ''context@1'') ''request'' (PRequest demo_request),
      Emitted (PageEmitter 7) ''request'' (PRequest demo_request)]
   \<and> emissions (channel_on demo_matches (RequestEvent demo_request None) demo_context) =
     [Emitted (ContextEmitter ''context@1'') ''request'' (PRequest demo_request)]"
proof -
  have "emissions demo_context = []" "guid demo_context = ''context@1''"
    by (simp_all add: emissions_def demo_context_def constructor_def once_def)
  then show ?thesis
    using C8_fan_out [where s = demo_context and matches = demo_matches and req = demo_request
        and pg = "Some (Page 7 None False)"]
      C8_fan_out [where s = demo_context and matches = demo_matches and req = demo_request
        and pg = None]
    by (simp add: spec_fan_out_def Events_BrowserContext_Request_def Events_Page_Request_def)
qed

subsection \<open>Waiters under emission\<close>

lemma filter_remove1_other: "\<not> P l \<Longrightarrow> filter P (remove1 l xs) = filter P xs"
  by (induction xs) auto

lemma owned_by_unique: "owned_by w l \<Longrightarrow> w' \<noteq> w \<Longrightarrow> \<not> owned_by w' l"
  by (simp add: owned_by_def)

lemma filter_owned_other:
  "w' \<noteq> w \<Longrightarrow> filter (owned_by w) (filter (\<lambda>l. \<not> owned_by w' l) xs) = filter (owned_by w) xs"
  by (induction xs) (auto simp: owned_by_def)

lemma filter_owned_other':
  "w' \<noteq> w \<Longrightarrow> filter (\<lambda>x. \<not> owned_by w' x \<and> owned_by w x) xs = filter (owned_by w) xs"
  by (induction xs) (auto simp: owned_by_def)

lemma settle_other:
  "w' \<noteq> w \<Longrightarrow> waiters (settle w' out s) w = waiters s w"
  "w' \<noteq> w \<Longrightarrow> filter (owned_by w) (listeners (settle w' out s)) = filter (owned_by w) (listeners s)"
  by (simp_all add: settle_def filter_owned_other' split: option.splits outcome.splits)

lemma settle_listeners_subset: "set (listeners (settle w out s)) \<subseteq> set (listeners s)"
  by (auto simp add: settle_def split: option.splits outcome.splits)

lemma settle_nextWaiter: "nextWaiter (settle w out s) = nextWaiter s"
  by (simp add: settle_def split: option.splits outcome.splits)

lemma settle_pending:
  "waiters s w = Some \<lparr>w_outcome = Pending, w_timer = tm\<rparr> \<Longrightarrow>
     waiters (settle w out s) w = Some \<lparr>w_outcome = out, w_timer = None\<rparr>"
  by (simp add: settle_def)

lemma settle_settled:
  "waiters s w = Some wt \<Longrightarrow> w_outcome wt \<noteq> Pending \<Longrightarrow> settle w out s = s"
  by (simp add: settle_def split: outcome.splits)

lemma deliver_listeners_subset: "set (listeners (deliver p l s)) \<subseteq> set (listeners s)"
proof -
  define s1 where "s1 = (if l_once l then s\<lparr>listeners := remove1 l (listeners s)\<rparr> else s)"
  have a: "set (listeners s1) \<subseteq> set (listeners s)"
    by (simp add: s1_def set_remove1_subset)
  have "set (listeners (deliver p l s)) \<subseteq> set (listeners s1)"
    unfolding deliver_def Let_def s1_def [symmetric]
    by (cases "l_action l") (simp_all add: settle_listeners_subset log_def)
  then show ?thesis
    using a by (rule subset_trans)
qed

lemma deliver_nextWaiter: "nextWaiter (deliver p l s) = nextWaiter s"
  by (simp add: deliver_def Let_def settle_nextWaiter log_def split: action.splits)

lemma wellformed_subset:
  "wellformed s \<Longrightarrow> set (listeners s') \<subseteq> set (listeners s) \<Longrightarrow> nextWaiter s \<le> nextWaiter s'
     \<Longrightarrow> wellformed s'"
  unfolding wellformed_def by (meson in_mono less_le_trans)

lemma deliver_wellformed: "wellformed s \<Longrightarrow> wellformed (deliver p l s)"
  by (rule wellformed_subset[where s = s]) (simp_all add: deliver_listeners_subset deliver_nextWaiter)


lemma deliver_stable:
  assumes "waiters s w = Some wt" "w_outcome wt \<noteq> Pending"
  shows "waiters (deliver p l s) w = Some wt"
proof -
  define s1 where "s1 = (if l_once l then s\<lparr>listeners := remove1 l (listeners s)\<rparr> else s)"
  have w1: "waiters s1 w = Some wt"
    using assms by (simp add: s1_def)
  have "waiters (settle w' out s1) w = Some wt" for w' out
  proof (cases "w' = w")
    case True
    then show ?thesis using w1 assms(2) by (simp add: settle_settled)
  next
    case False
    then show ?thesis using w1 by (simp add: settle_other)
  qed
  then show ?thesis
    unfolding deliver_def Let_def s1_def [symmetric]
    using w1 by (cases "l_action l") (simp_all add: log_def)
qed

lemma deliver_settled: "settled w ls tm s \<Longrightarrow> settled w ls tm (deliver p l s)"
proof -
  assume "settled w ls tm s"
  then obtain out where j: "justified w ls tm out"
    and w: "waiters s w = Some \<lparr>w_outcome = out, w_timer = None\<rparr>"
    unfolding settled_def by blast
  from j have "out \<noteq> Pending"
    by (auto simp add: justified_def)
  then have "waiters (deliver p l s) w = Some \<lparr>w_outcome = out, w_timer = None\<rparr>"
    using w by (intro deliver_stable) simp_all
  then show ?thesis
    using j unfolding settled_def by blast
qed

lemma deliver_awaiting:
  assumes a: "awaiting w ls tm s"
    and l: "owned_by w l \<Longrightarrow> l \<in> set ls \<and> \<not> l_once l"
  shows "awaiting w ls tm (deliver p l s) \<or> settled w ls tm (deliver p l s)"
proof -
  define s1 where "s1 = (if l_once l then s\<lparr>listeners := remove1 l (listeners s)\<rparr> else s)"
  have "\<not> owned_by w l \<or> \<not> l_once l"
    using l by blast
  then have "filter (owned_by w) (listeners s1) = filter (owned_by w) (listeners s)"
    by (auto simp add: s1_def filter_remove1_other)
  moreover have "waiters s1 w = waiters s w"
    by (simp add: s1_def)
  ultimately have a1: "awaiting w ls tm s1"
    using a by (simp add: awaiting_def)
  have other: "awaiting w ls tm (settle w' out s1)" if "w' \<noteq> w" for w' out
    using a1 that by (simp add: awaiting_def settle_other)
  have own: "settled w ls tm (settle w out s1)" if "justified w ls tm out" for out
    using a1 that by (auto simp add: awaiting_def settled_def settle_pending)
  show ?thesis
  proof (cases "l_action l")
    case ResolveClosedPromise
    then show ?thesis
      using a1 by (simp add: deliver_def Let_def s1_def [symmetric] awaiting_def)
  next
    case (WaiterTarget w' pred)
    show ?thesis
    proof (cases "w' = w \<and> accepts pred p")
      case True
      then have "owned_by w l"
        using WaiterTarget by (simp add: owned_by_def)
      then have "l \<in> set ls" using l by blast
      then have "justified w ls tm (Resolved p)"
        using WaiterTarget True by (auto simp add: justified_def)
      then show ?thesis
        using own WaiterTarget True by (simp add: deliver_def Let_def s1_def [symmetric])
    next
      case False
      then show ?thesis
        using other a1 WaiterTarget by (auto simp add: deliver_def Let_def s1_def [symmetric])
    qed
  next
    case (WaiterGuard w' e)
    show ?thesis
    proof (cases "w' = w")
      case True
      then have "owned_by w l"
        using WaiterGuard by (simp add: owned_by_def)
      then have "l \<in> set ls" using l by blast
      then have "justified w ls tm (Rejected e)"
        using WaiterGuard True by (auto simp add: justified_def)
      then show ?thesis
        using own WaiterGuard True by (simp add: deliver_def Let_def s1_def [symmetric])
    next
      case False
      then show ?thesis
        using other WaiterGuard by (simp add: deliver_def Let_def s1_def [symmetric])
    qed
  next
    case (AppListener i)
    then show ?thesis
      using a1 by (simp add: deliver_def Let_def s1_def [symmetric] awaiting_def log_def)
  qed
qed

lemma fold_deliver_wellformed: "wellformed s \<Longrightarrow> wellformed (fold (deliver p) L s)"
  by (induction L arbitrary: s) (simp_all add: deliver_wellformed)

lemma fold_deliver_settled: "settled w ls tm s \<Longrightarrow> settled w ls tm (fold (deliver p) L s)"
  by (induction L arbitrary: s) (simp_all add: deliver_settled)

lemma fold_deliver_awaiting:
  assumes "awaiting w ls tm s" "\<forall>l\<in>set L. owned_by w l \<longrightarrow> l \<in> set ls \<and> \<not> l_once l"
  shows "awaiting w ls tm (fold (deliver p) L s) \<or> settled w ls tm (fold (deliver p) L s)"
  using assms
proof (induction L arbitrary: s)
  case Nil
  then show ?case by simp
next
  case (Cons l L)
  have "awaiting w ls tm (deliver p l s) \<or> settled w ls tm (deliver p l s)"
    using Cons.prems by (intro deliver_awaiting) simp_all
  then show ?case
  proof
    assume "awaiting w ls tm (deliver p l s)"
    then show ?thesis using Cons.IH Cons.prems(2) by simp
  next
    assume "settled w ls tm (deliver p l s)"
    then show ?thesis by (simp add: fold_deliver_settled)
  qed
qed

lemma tracked_log [simp]: "tracked w ls tm (log e s) = tracked w ls tm s"
  by (simp add: tracked_def wellformed_def awaiting_def settled_def log_def)

lemma fold_deliver_nextWaiter: "nextWaiter (fold (deliver p) L s) = nextWaiter s"
  by (induction L arbitrary: s) (simp_all add: deliver_nextWaiter)

lemma emit_tracked:
  assumes "tracked w ls tm s"
  shows "tracked w ls tm (emit ev p s)"
proof -
  let ?L = "filter (\<lambda>l. l_event l = ev) (listeners s)"
  let ?s = "log (Emitted (ContextEmitter (guid s)) ev p) s"
  have t: "tracked w ls tm ?s" using assms by simp
  then have wf: "wellformed (fold (deliver p) ?L ?s)"
    by (simp add: tracked_def fold_deliver_wellformed)
  from t consider (a) "awaiting w ls tm ?s" | (b) "settled w ls tm ?s"
    by (auto simp add: tracked_def)
  then have "awaiting w ls tm (fold (deliver p) ?L ?s) \<or> settled w ls tm (fold (deliver p) ?L ?s)"
  proof cases
    case a
    have "\<forall>l\<in>set ?L. owned_by w l \<longrightarrow> l \<in> set ls \<and> \<not> l_once l"
      using a assms by (auto simp add: awaiting_def tracked_def wellformed_def log_def)
    then show ?thesis using a by (rule fold_deliver_awaiting[rotated])
  next
    case b
    then show ?thesis by (simp add: fold_deliver_settled)
  qed
  moreover have "w < nextWaiter (fold (deliver p) ?L ?s)"
    using assms by (simp add: fold_deliver_nextWaiter tracked_def log_def)
  ultimately show ?thesis
    using wf by (simp add: tracked_def emit_def)
qed


lemma tracked_update [simp]:
  "tracked w ls tm (s\<lparr>closed := a\<rparr>) = tracked w ls tm s"
  "tracked w ls tm (s\<lparr>pages := b\<rparr>) = tracked w ls tm s"
  "tracked w ls tm (s\<lparr>backgroundPages := b\<rparr>) = tracked w ls tm s"
  "tracked w ls tm (s\<lparr>serviceWorkers := c\<rparr>) = tracked w ls tm s"
  "tracked w ls tm (s\<lparr>browser_contexts := d\<rparr>) = tracked w ls tm s"
  "tracked w ls tm (s\<lparr>browserType_contexts := e\<rparr>) = tracked w ls tm s"
  "tracked w ls tm (s\<lparr>routes := f\<rparr>) = tracked w ls tm s"
  "tracked w ls tm (s\<lparr>bindings := g\<rparr>) = tracked w ls tm s"
  by (simp_all add: tracked_def wellformed_def awaiting_def settled_def)

lemma page_emit_tracked [simp]: "tracked w ls tm (page_emit pg ev p s) = tracked w ls tm s"
  by (simp add: page_emit_def)

lemma onClose_tracked: "tracked w ls tm s \<Longrightarrow> tracked w ls tm (onClose s)"
  unfolding onClose_def Let_def
  by (rule emit_tracked) (simp split: option.splits)

lemma onPage_tracked: "tracked w ls tm s \<Longrightarrow> tracked w ls tm (onPage pg s)"
  unfolding onPage_def Let_def
  by (auto split: option.splits intro!: emit_tracked)

lemma onRequest_tracked: "tracked w ls tm s \<Longrightarrow> tracked w ls tm (onRequest req pg s)"
  unfolding onRequest_def Let_def
  by (auto split: option.splits intro!: emit_tracked)

lemma onResponse_tracked: "tracked w ls tm s \<Longrightarrow> tracked w ls tm (onResponse resp pg s)"
  unfolding onResponse_def Let_def
  by (auto split: option.splits intro!: emit_tracked)

lemma onRequestFailed_tracked:
  "tracked w ls tm s \<Longrightarrow> tracked w ls tm (onRequestFailed req t ftext pg s)"
  unfolding onRequestFailed_def Let_def
  by (auto split: option.splits intro!: emit_tracked)

lemma onRequestFinished_tracked:
  "tracked w ls tm s \<Longrightarrow> tracked w ls tm (onRequestFinished req t pg s)"
  unfolding onRequestFinished_def Let_def
  by (auto split: option.splits intro!: emit_tracked)

lemma onRoute_loop_tracked:
  "tracked w ls tm s \<Longrightarrow> onRoute_loop matches hs r req s = Some s' \<Longrightarrow> tracked w ls tm s'"
  by (induction hs) (auto simp add: handle_def split: if_splits)

lemma onRoute_tracked: "tracked w ls tm s \<Longrightarrow> tracked w ls tm (onRoute matches r req s)"
  unfolding onRoute_def
  by (auto simp add: onRoute_loop_tracked send_def floating_def catch_def
      split: option.splits sum.splits)

lemma onBinding_tracked:
  "tracked w ls tm s \<Longrightarrow> tracked w ls tm (snd (onBinding bc s))"
  by (simp add: onBinding_def bindingCall_call_def Let_def split: option.splits sum.splits)

lemma channel_on_tracked: "tracked w ls tm s \<Longrightarrow> tracked w ls tm (channel_on matches ev s)"
proof (cases ev)
  case (BindingCallEvent bc)
  assume "tracked w ls tm s"
  then have "tracked w ls tm (snd (onBinding bc s))"
    by (rule onBinding_tracked)
  then show ?thesis
    using BindingCallEvent by (cases "onBinding bc s") (auto simp add: floating_def split: sum.splits)
next
  case (BackgroundPageEvent pg)
  assume "tracked w ls tm s"
  then show ?thesis
    using BackgroundPageEvent by (auto intro!: emit_tracked)
next
  case (ServiceWorkerEvent wk)
  assume "tracked w ls tm s"
  then show ?thesis
    using ServiceWorkerEvent by (auto intro!: emit_tracked simp add: Let_def)
qed (simp_all add: onClose_tracked onPage_tracked onRoute_tracked onRequest_tracked
      onRequestFailed_tracked onRequestFinished_tracked onResponse_tracked)

lemma settle_wellformed: "wellformed s \<Longrightarrow> wellformed (settle w out s)"
  by (rule wellformed_subset[where s = s]) (simp_all add: settle_listeners_subset settle_nextWaiter)

lemma timerFired_tracked:
  assumes "tracked w ls tm s"
  shows "tracked w ls tm (timerFired w' s)"
proof (cases "w' = w")
  case False
  have "awaiting w ls tm (settle w' out s) = awaiting w ls tm s" for out
    using False by (simp add: awaiting_def settle_other)
  moreover have "settled w ls tm (settle w' out s) = settled w ls tm s" for out
    using False by (simp add: settled_def settle_other)
  ultimately show ?thesis
    using assms
    by (auto simp add: timerFired_def tracked_def settle_wellformed settle_nextWaiter
        split: option.splits)
next
  case True
  from assms consider (a) "awaiting w ls tm s" | (b) "settled w ls tm s"
    by (auto simp add: tracked_def)
  then show ?thesis
  proof cases
    case a
    show ?thesis
    proof (cases tm)
      case None
      then show ?thesis
        using a assms True by (simp add: timerFired_def awaiting_def)
    next
      case (Some dm)
      obtain d msg where dm: "dm = (d, msg)" by (cases dm)
      have "justified w ls tm (Rejected (TimeoutError msg))"
        using Some dm by (simp add: justified_def)
      then have "settled w ls tm (settle w (Rejected (TimeoutError msg)) s)"
        using a by (auto simp add: settled_def awaiting_def settle_pending)
      then show ?thesis
        using a assms True Some dm
        by (simp add: timerFired_def awaiting_def tracked_def settle_wellformed settle_nextWaiter)
    qed
  next
    case b
    then show ?thesis
      using assms True by (auto simp add: timerFired_def settled_def)
  qed
qed

lemma waitForEvent_eq:
  "waitForEvent event oop s =
     (nextWaiter s,
      s\<lparr>waiters := (waiters s)(nextWaiter s \<mapsto>
           \<lparr>w_outcome = Pending, w_timer = Some (wait_timeout oop s, wait_message event)\<rparr>),
        nextWaiter := Suc (nextWaiter s),
        listeners := listeners s @ wait_branches (nextWaiter s) event oop\<rparr>)"
  by (simp add: waitForEvent_def Waiter_createForEvent_def rejectOnTimeout_def rejectOnEvent_def
      Waiter_waitForEvent_def on_def Let_def wait_timeout_def wait_predicate_def wait_message_def
      wait_branches_def)

lemma wait_branches_owned:
  "filter (owned_by w) (wait_branches n event oop) = (if w = n then wait_branches n event oop else [])"
  by (auto simp add: wait_branches_def owned_by_def)

lemma waitForEvent_wellformed:
  "wellformed s \<Longrightarrow> wellformed (snd (waitForEvent event oop s))"
  by (auto simp add: waitForEvent_eq wellformed_def wait_branches_def owned_by_def less_Suc_eq)

lemma waitForEvent_other_tracked:
  assumes "tracked w ls tm s"
  shows "tracked w ls tm (snd (waitForEvent event oop s))"
proof -
  have ne: "w \<noteq> nextWaiter s" "w < nextWaiter s"
    using assms by (auto simp add: tracked_def)
  have "awaiting w ls tm (snd (waitForEvent event oop s)) = awaiting w ls tm s"
    using ne(1) by (simp add: waitForEvent_eq awaiting_def wait_branches_owned)
  moreover have "settled w ls tm (snd (waitForEvent event oop s)) = settled w ls tm s"
    using ne(1) by (simp add: waitForEvent_eq settled_def)
  moreover have "w < nextWaiter (snd (waitForEvent event oop s))"
    using ne(2) by (simp add: waitForEvent_eq)
  ultimately show ?thesis
    using assms by (simp add: tracked_def waitForEvent_wellformed)
qed

lemma dispose_wellformed: "wellformed s \<Longrightarrow> wellformed (dispose w s)"
  by (rule wellformed_subset[where s = s]) (simp_all add: dispose_def)

lemma dispose_tracked:
  assumes "tracked w ls tm s" "waiter_outcome s w' \<noteq> Pending"
  shows "tracked w ls tm (dispose w' s)"
proof (cases "w' = w")
  case False
  then have "awaiting w ls tm (dispose w' s) = awaiting w ls tm s"
    by (simp add: dispose_def awaiting_def filter_owned_other' split: option.splits)
  moreover have "settled w ls tm (dispose w' s) = settled w ls tm s"
    using False by (simp add: dispose_def settled_def split: option.splits)
  moreover have "nextWaiter (dispose w' s) = nextWaiter s"
    by (simp add: dispose_def)
  ultimately show ?thesis
    using assms by (simp add: tracked_def dispose_wellformed)
next
  case True
  then have "\<not> awaiting w ls tm s"
    using assms(2) by (auto simp add: awaiting_def waiter_outcome_def)
  then have st: "settled w ls tm s"
    using assms(1) by (simp add: tracked_def)
  then have "waiters (dispose w s) w = waiters s w"
    by (auto simp add: settled_def dispose_def)
  then have "settled w ls tm (dispose w s)"
    using st by (simp add: settled_def)
  moreover have "nextWaiter (dispose w s) = nextWaiter s"
    by (simp add: dispose_def)
  ultimately show ?thesis
    using assms True by (simp add: tracked_def dispose_wellformed)
qed

lemma waitForEvent_resume_tracked:
  "tracked w ls tm s \<Longrightarrow> tracked w ls tm (snd (waitForEvent_resume rewrite w' s))"
  by (cases "waiter_outcome s w'") (simp_all add: waitForEvent_resume_def dispose_tracked)

lemma wrapApiCall_snd:
  "snd (wrapApiCall rewrite func s) = snd (func s)"
  by (simp add: wrapApiCall_def split: prod.splits sum.splits)

lemma call_tracked: "tracked w ls tm s \<Longrightarrow> tracked w ls tm (call rewrite c s)"
proof (cases c)
  case (CallWaitForEvent event oop)
  assume "tracked w ls tm s"
  then show ?thesis
    using CallWaitForEvent by (simp add: waitForEvent_other_tracked)
next
  case (ResumeWaitForEvent w')
  assume "tracked w ls tm s"
  then show ?thesis
    using ResumeWaitForEvent by (simp add: waitForEvent_resume_tracked)
next
  case (CallRoute url handler tms)
  assume "tracked w ls tm s"
  then show ?thesis
    using CallRoute by (simp add: route_def wrapApiCall_snd Let_def send_def)
next
  case (CallUnroute url handler)
  assume "tracked w ls tm s"
  then show ?thesis
    using CallUnroute by (simp add: unroute_def wrapApiCall_snd Let_def send_def)
next
  case (CallExposeBinding name cb h)
  assume "tracked w ls tm s"
  then show ?thesis
    using CallExposeBinding
    by (simp add: exposeBinding_def wrapApiCall_snd send_def split: sum.splits)
next
  case (CallExposeFunction name cb)
  assume "tracked w ls tm s"
  then show ?thesis
    using CallExposeFunction
    by (simp add: exposeFunction_def wrapApiCall_snd send_def split: sum.splits)
qed

lemma occur_tracked: "tracked w ls tm s \<Longrightarrow> tracked w ls tm (occur rewrite matches oc s)"
  by (cases oc) (simp_all add: channel_on_tracked timerFired_tracked call_tracked)

lemma run_tracked: "tracked w ls tm s \<Longrightarrow> tracked w ls tm (run rewrite matches occs s)"
  unfolding run_def by (induction occs arbitrary: s) (simp_all add: occur_tracked)

lemma fold_deliver_stable:
  "waiters s w = Some wt \<Longrightarrow> w_outcome wt \<noteq> Pending
     \<Longrightarrow> waiters (fold (deliver p) L s) w = Some wt"
  by (induction L arbitrary: s) (simp_all add: deliver_stable)

lemma emit_stable:
  "waiters s w = Some wt \<Longrightarrow> w_outcome wt \<noteq> Pending \<Longrightarrow> waiters (emit ev p s) w = Some wt"
  by (simp add: emit_def fold_deliver_stable log_def)

lemma onClose_stable:
  "waiters s w = Some wt \<Longrightarrow> w_outcome wt \<noteq> Pending \<Longrightarrow> waiters (onClose s) w = Some wt"
  by (simp add: onClose_def Let_def emit_stable split: option.splits)

lemma deliver_quiet:
  assumes "verdict w p [l] = Pending"
  shows "waiters (deliver p l s) w = waiters s w"
proof -
  define s1 where "s1 = (if l_once l then s\<lparr>listeners := remove1 l (listeners s)\<rparr> else s)"
  have w1: "waiters s1 w = waiters s w"
    by (simp add: s1_def)
  show ?thesis
    unfolding deliver_def Let_def s1_def [symmetric]
    using assms w1
    by (cases "l_action l") (auto simp add: settle_other log_def split: if_splits)
qed

lemma deliver_fires:
  assumes "waiters s w = Some \<lparr>w_outcome = Pending, w_timer = tm\<rparr>" "verdict w p [l] \<noteq> Pending"
  shows "waiters (deliver p l s) w = Some \<lparr>w_outcome = verdict w p [l], w_timer = None\<rparr>"
proof -
  define s1 where "s1 = (if l_once l then s\<lparr>listeners := remove1 l (listeners s)\<rparr> else s)"
  have w1: "waiters s1 w = Some \<lparr>w_outcome = Pending, w_timer = tm\<rparr>"
    using assms(1) by (simp add: s1_def)
  show ?thesis
    unfolding deliver_def Let_def s1_def [symmetric]
    using assms(2) w1
    by (cases "l_action l") (auto simp add: settle_pending split: if_splits)
qed

lemma verdict_Cons:
  "verdict w p (l # L) = (if verdict w p [l] \<noteq> Pending then verdict w p [l] else verdict w p L)"
  by (cases "l_action l") auto

lemma fold_deliver_verdict:
  "waiters s w = Some \<lparr>w_outcome = Pending, w_timer = tm\<rparr>
     \<Longrightarrow> waiter_outcome (fold (deliver p) L s) w = verdict w p L"
proof (induction L arbitrary: s tm)
  case Nil
  then show ?case by (simp add: waiter_outcome_def)
next
  case (Cons l L)
  show ?case
  proof (cases "verdict w p [l] = Pending")
    case True
    then have "waiters (deliver p l s) w = Some \<lparr>w_outcome = Pending, w_timer = tm\<rparr>"
      using Cons.prems by (simp add: deliver_quiet)
    then have "waiter_outcome (fold (deliver p) L (deliver p l s)) w = verdict w p L"
      by (rule Cons.IH)
    moreover have "verdict w p (l # L) = verdict w p L"
      using True by (subst verdict_Cons) (simp del: verdict.simps)
    ultimately show ?thesis
      by (simp del: verdict.simps)
  next
    case False
    then have "waiters (deliver p l s) w = Some \<lparr>w_outcome = verdict w p [l], w_timer = None\<rparr>"
      using Cons.prems by (simp add: deliver_fires del: verdict.simps)
    then have "waiters (fold (deliver p) L (deliver p l s)) w
                 = Some \<lparr>w_outcome = verdict w p [l], w_timer = None\<rparr>"
      using False by (intro fold_deliver_stable) simp_all
    moreover have "verdict w p (l # L) = verdict w p [l]"
      using False by (subst verdict_Cons) (simp del: verdict.simps)
    ultimately show ?thesis
      by (simp add: waiter_outcome_def del: verdict.simps)
  qed
qed

lemma verdict_owned: "verdict w p (filter (owned_by w) L) = verdict w p L"
proof (induction L)
  case Nil
  then show ?case by simp
next
  case (Cons l L)
  then show ?case
    by (cases "l_action l") (auto simp add: owned_by_def)
qed

lemma emit_verdict:
  assumes "awaiting w ls tm s"
  shows "waiter_outcome (emit ev p s) w = verdict w p (filter (\<lambda>l. l_event l = ev) ls)"
proof -
  let ?L = "filter (\<lambda>l. l_event l = ev) (listeners s)"
  have "waiter_outcome (emit ev p s) w = verdict w p ?L"
    using assms unfolding emit_def
    by (intro fold_deliver_verdict[where tm = tm]) (simp add: awaiting_def log_def)
  also have "\<dots> = verdict w p (filter (owned_by w) ?L)"
    by (simp only: verdict_owned)
  finally have v: "waiter_outcome (emit ev p s) w = verdict w p (filter (owned_by w) ?L)" .
  have "filter (owned_by w) ?L = filter (\<lambda>l. l_event l = ev) (filter (owned_by w) (listeners s))"
    by (simp add: conj_commute)
  also have "\<dots> = filter (\<lambda>l. l_event l = ev) ls"
    using assms by (simp only: awaiting_def)
  finally show ?thesis
    using v by (simp only:)
qed

lemma awaiting_update [simp]:
  "awaiting w ls tm (s\<lparr>closed := a\<rparr>) = awaiting w ls tm s"
  "awaiting w ls tm (s\<lparr>browser_contexts := d\<rparr>) = awaiting w ls tm s"
  "awaiting w ls tm (s\<lparr>browserType_contexts := e\<rparr>) = awaiting w ls tm s"
  by (simp_all add: awaiting_def)

lemma onClose_verdict:
  assumes "awaiting w ls tm s"
  shows "waiter_outcome (onClose s) w =
           verdict w (PContext (guid s)) (filter (\<lambda>l. l_event l = Events_BrowserContext_Close) ls)"
  unfolding onClose_def Let_def
  using assms by (subst emit_verdict[where ls = ls and tm = tm]) (simp_all split: option.splits)

subsection \<open>guid\<close>

lemma guid_log [simp]: "guid (log e s) = guid s"
  by (simp add: log_def)

lemma guid_settle [simp]: "guid (settle w out s) = guid s"
  by (simp add: settle_def split: option.splits outcome.splits)

lemma guid_deliver [simp]: "guid (deliver p l s) = guid s"
  by (simp add: deliver_def Let_def split: action.splits)

lemma guid_fold_deliver [simp]: "guid (fold (deliver p) L s) = guid s"
  by (induction L arbitrary: s) simp_all

lemma guid_emit [simp]: "guid (emit ev p s) = guid s"
  by (simp add: emit_def)

lemma guid_onRoute_loop:
  "onRoute_loop matches hs r req s = Some s' \<Longrightarrow> guid s' = guid s"
  by (induction hs) (auto simp add: handle_def split: if_splits)

lemma guid_channel_on [simp]: "guid (channel_on matches ev s) = guid s"
proof (cases ev)
  case (RouteEvent r req)
  then show ?thesis
    by (auto simp add: onRoute_def guid_onRoute_loop send_def floating_def catch_def
        split: option.splits sum.splits)
qed (auto simp add: onBinding_def bindingCall_call_def floating_def Let_def onClose_def onPage_def
      page_emit_def onRequest_def onResponse_def onRequestFailed_def onRequestFinished_def
      split: option.splits sum.splits prod.splits)

lemma guid_call [simp]: "guid (call rewrite c s) = guid s"
  by (cases c)
    (simp_all add: waitForEvent_def Waiter_createForEvent_def rejectOnTimeout_def rejectOnEvent_def
      Waiter_waitForEvent_def on_def Let_def waitForEvent_resume_def dispose_def route_def
      unroute_def exposeBinding_def exposeFunction_def wrapApiCall_snd send_def
      split: outcome.splits sum.splits option.splits)

lemma guid_occur [simp]: "guid (occur rewrite matches oc s) = guid s"
  by (cases oc) (simp_all add: timerFired_def split: option.splits)

lemma guid_run [simp]: "guid (run rewrite matches occs s) = guid s"
  unfolding run_def by (induction occs arbitrary: s) simp_all


lemma waitForEvent_tracked:
  assumes "wellformed s"
  shows "tracked (nextWaiter s) (wait_branches (nextWaiter s) event oop)
           (Some (wait_timeout oop s, wait_message event)) (snd (waitForEvent event oop s))"
    and "awaiting (nextWaiter s) (wait_branches (nextWaiter s) event oop)
           (Some (wait_timeout oop s, wait_message event)) (snd (waitForEvent event oop s))"
proof -
  let ?w = "nextWaiter s"
  have none: "filter (owned_by ?w) (listeners s) = []"
    using assms by (auto simp add: wellformed_def filter_empty_conv)
  have own: "filter (owned_by ?w) (wait_branches ?w event oop) = wait_branches ?w event oop"
    by (simp add: wait_branches_def owned_by_def)
  show a: "awaiting ?w (wait_branches ?w event oop)
           (Some (wait_timeout oop s, wait_message event)) (snd (waitForEvent event oop s))"
    by (simp add: waitForEvent_eq awaiting_def none own)
  have "wellformed (snd (waitForEvent event oop s))"
    using assms by (rule waitForEvent_wellformed)
  moreover have "nextWaiter s < nextWaiter (snd (waitForEvent event oop s))"
    by (simp add: waitForEvent_eq)
  ultimately show "tracked ?w (wait_branches ?w event oop)
           (Some (wait_timeout oop s, wait_message event)) (snd (waitForEvent event oop s))"
    using a by (simp add: tracked_def)
qed

lemma tracked_pending:
  "tracked w ls tm s \<Longrightarrow> waiter_outcome s w = Pending \<Longrightarrow> awaiting w ls tm s"
  by (auto simp add: tracked_def settled_def justified_def waiter_outcome_def)

lemma tracked_outcome:
  "tracked w ls tm s \<Longrightarrow> waiter_outcome s w \<noteq> Pending \<Longrightarrow> justified w ls tm (waiter_outcome s w)"
  by (auto simp add: tracked_def settled_def awaiting_def waiter_outcome_def)

lemma onClose_settled_stays:
  "waiter_outcome s w \<noteq> Pending \<Longrightarrow> waiter_outcome (onClose s) w = waiter_outcome s w"
  by (auto simp add: waiter_outcome_def onClose_stable split: option.splits)

text \<open>
  Claim C2. \<^verbatim>\<open>waitForEvent\<close> for an event other than the close event installs on its waiter
  a guard that rejects on the close event with the error \<^verbatim>\<open>Context closed\<close>. Whatever
  happens to the context afterwards (events pushed, timers firing, calls), if the waiter is
  still pending when the close event arrives, the call is rejected with that error, as
  \<^verbatim>\<open>_wrapApiCall\<close> passes it on; and once the close event has arrived the call is not
  pending.
\<close>

theorem C2_close_aborts_wait:
  "wellformed s \<and> event \<noteq> Events_BrowserContext_Close \<longrightarrow>
     Listener Events_BrowserContext_Close False
         (WaiterGuard (fst (waitForEvent event oop s)) (Error ''Context closed''))
       \<in> set (listeners (snd (waitForEvent event oop s)))
     \<and> (\<forall>occs.
           waiter_outcome (run rewrite matches occs (snd (waitForEvent event oop s)))
               (fst (waitForEvent event oop s)) = Pending
           \<longrightarrow> fst (waitForEvent_resume rewrite (fst (waitForEvent event oop s))
                      (channel_on matches CloseEvent
                         (run rewrite matches occs (snd (waitForEvent event oop s)))))
                 = Rejected (rewrite (Error ''Context closed'')))
     \<and> (\<forall>occs.
           fst (waitForEvent_resume rewrite (fst (waitForEvent event oop s))
                  (channel_on matches CloseEvent
                     (run rewrite matches occs (snd (waitForEvent event oop s)))))
             \<noteq> Pending)"
proof (intro impI)
  assume h: "wellformed s \<and> event \<noteq> Events_BrowserContext_Close"
  let ?w = "nextWaiter s"
  let ?s1 = "snd (waitForEvent event oop s)"
  let ?ls = "wait_branches ?w event oop"
  let ?tm = "Some (wait_timeout oop s, wait_message event)"
  have w: "fst (waitForEvent event oop s) = ?w"
    by (simp add: waitForEvent_eq)
  have installed: "Listener Events_BrowserContext_Close False (WaiterGuard ?w (Error ''Context closed''))
       \<in> set (listeners ?s1)"
    using h by (simp add: waitForEvent_eq wait_branches_def)
  have t1: "tracked ?w ?ls ?tm ?s1"
    using h by (simp add: waitForEvent_tracked)
  have closing: "waiter_outcome (onClose s2) ?w = Rejected (Error ''Context closed'')"
    if "awaiting ?w ?ls ?tm s2" for s2
    using that h by (simp add: onClose_verdict wait_branches_def)
  have pending: "fst (waitForEvent_resume rewrite ?w (channel_on matches CloseEvent (run rewrite matches occs ?s1)))
                 = Rejected (rewrite (Error ''Context closed''))"
    if "waiter_outcome (run rewrite matches occs ?s1) ?w = Pending" for occs
  proof -
    have "awaiting ?w ?ls ?tm (run rewrite matches occs ?s1)"
      using t1 that by (intro tracked_pending run_tracked)
    then show ?thesis
      by (simp add: waitForEvent_resume_def closing)
  qed
  have never: "fst (waitForEvent_resume rewrite ?w (channel_on matches CloseEvent (run rewrite matches occs ?s1)))
                 \<noteq> Pending" for occs
  proof (cases "waiter_outcome (run rewrite matches occs ?s1) ?w = Pending")
    case True
    then show ?thesis using pending [of occs] by simp
  next
    case False
    then have "waiter_outcome (onClose (run rewrite matches occs ?s1)) ?w \<noteq> Pending"
      by (simp add: onClose_settled_stays)
    then show ?thesis
      by (simp add: waitForEvent_resume_def split: outcome.splits)
  qed
  show "Listener Events_BrowserContext_Close False
         (WaiterGuard (fst (waitForEvent event oop s)) (Error ''Context closed''))
       \<in> set (listeners (snd (waitForEvent event oop s)))
     \<and> (\<forall>occs.
           waiter_outcome (run rewrite matches occs (snd (waitForEvent event oop s)))
               (fst (waitForEvent event oop s)) = Pending
           \<longrightarrow> fst (waitForEvent_resume rewrite (fst (waitForEvent event oop s))
                      (channel_on matches CloseEvent
                         (run rewrite matches occs (snd (waitForEvent event oop s)))))
                 = Rejected (rewrite (Error ''Context closed'')))
     \<and> (\<forall>occs.
           fst (waitForEvent_resume rewrite (fst (waitForEvent event oop s))
                  (channel_on matches CloseEvent
                     (run rewrite matches occs (snd (waitForEvent event oop s)))))
             \<noteq> Pending)"
    unfolding w using installed pending never by blast
qed


subsection \<open>What leaves a waiter pending\<close>

lemma events_distinct:
  "Events_BrowserContext_Page \<noteq> Events_BrowserContext_Close"
  "Events_BrowserContext_BackgroundPage \<noteq> Events_BrowserContext_Close"
  "Events_BrowserContext_ServiceWorker \<noteq> Events_BrowserContext_Close"
  "Events_BrowserContext_Request \<noteq> Events_BrowserContext_Close"
  "Events_BrowserContext_Response \<noteq> Events_BrowserContext_Close"
  "Events_BrowserContext_RequestFailed \<noteq> Events_BrowserContext_Close"
  "Events_BrowserContext_RequestFinished \<noteq> Events_BrowserContext_Close"
  by (simp_all add: Events_BrowserContext_Close_def Events_BrowserContext_Page_def
      Events_BrowserContext_BackgroundPage_def Events_BrowserContext_ServiceWorker_def
      Events_BrowserContext_Request_def Events_BrowserContext_Response_def
      Events_BrowserContext_RequestFailed_def Events_BrowserContext_RequestFinished_def)

lemma awaiting_frame [simp]:
  "awaiting w ls tm (s\<lparr>pages := b\<rparr>) = awaiting w ls tm s"
  "awaiting w ls tm (s\<lparr>backgroundPages := b\<rparr>) = awaiting w ls tm s"
  "awaiting w ls tm (s\<lparr>serviceWorkers := c\<rparr>) = awaiting w ls tm s"
  "awaiting w ls tm (s\<lparr>routes := f\<rparr>) = awaiting w ls tm s"
  "awaiting w ls tm (s\<lparr>bindings := g\<rparr>) = awaiting w ls tm s"
  "awaiting w ls tm (log ef s) = awaiting w ls tm s"
  "awaiting w ls tm (page_emit pg ev p s) = awaiting w ls tm s"
  by (simp_all add: awaiting_def log_def page_emit_def)

lemma awaiting_outcome: "awaiting w ls tm s \<Longrightarrow> waiter_outcome s w = Pending"
  by (simp add: awaiting_def waiter_outcome_def)

text \<open>An emission of an event that waiter \<open>w\<close> has no subscription on leaves it as it is.\<close>

lemma emit_elsewhere:
  assumes t: "tracked w ls tm s" and a: "awaiting w ls tm s"
    and ls: "\<forall>l\<in>set ls. l_event l \<noteq> ev"
  shows "awaiting w ls tm (emit ev p s)"
proof -
  have "filter (\<lambda>l. l_event l = ev) ls = []"
    using ls by (simp add: filter_empty_conv)
  then have "waiter_outcome (emit ev p s) w = Pending"
    using a by (simp add: emit_verdict)
  moreover have "tracked w ls tm (emit ev p s)"
    using t by (rule emit_tracked)
  ultimately show ?thesis
    by (intro tracked_pending)
qed

lemma onRoute_loop_awaiting:
  "awaiting w ls tm s \<Longrightarrow> onRoute_loop matches hs r req s = Some s' \<Longrightarrow> awaiting w ls tm s'"
  by (induction hs) (auto simp add: handle_def split: if_splits)

lemma channel_on_elsewhere:
  assumes t: "tracked w ls tm s" and a: "awaiting w ls tm s"
    and ls: "\<forall>l\<in>set ls. l_event l = Events_BrowserContext_Close"
    and ev: "ev \<noteq> CloseEvent"
  shows "awaiting w ls tm (channel_on matches ev s)"
proof -
  have e: "awaiting w ls tm (emit n p s')"
    if "tracked w ls tm s'" "awaiting w ls tm s'" "n \<noteq> Events_BrowserContext_Close" for n p s'
    using that ls by (intro emit_elsewhere) auto
  show ?thesis
  proof (cases ev)
    case (BindingCallEvent bc)
    then show ?thesis
      using a by (simp add: onBinding_def bindingCall_call_def floating_def Let_def
          split: option.splits sum.splits)
  next
    case CloseEvent
    then show ?thesis using ev by simp
  next
    case (PageEvent pg)
    then show ?thesis
      using t a by (simp add: onPage_def Let_def e events_distinct split: option.splits)
  next
    case (RouteEvent r req)
    then show ?thesis
      using a by (auto simp add: onRoute_def onRoute_loop_awaiting send_def floating_def catch_def
          split: option.splits sum.splits)
  next
    case (BackgroundPageEvent pg)
    then show ?thesis
      using t a by (simp add: e events_distinct)
  next
    case (ServiceWorkerEvent wk)
    then show ?thesis
      using t a by (simp add: e events_distinct Let_def)
  next
    case (RequestEvent req pg)
    then show ?thesis
      using t a by (simp add: onRequest_def Let_def e events_distinct split: option.splits)
  next
    case (RequestFailedEvent req ftext tt pg)
    then show ?thesis
      using t a by (simp add: onRequestFailed_def Let_def e events_distinct split: option.splits)
  next
    case (RequestFinishedEvent req tt pg)
    then show ?thesis
      using t a by (simp add: onRequestFinished_def Let_def e events_distinct split: option.splits)
  next
    case (ResponseEvent resp pg)
    then show ?thesis
      using t a by (simp add: onResponse_def Let_def e events_distinct split: option.splits)
  qed
qed

lemma timerFired_elsewhere:
  "awaiting w ls tm s \<Longrightarrow> w' \<noteq> w \<Longrightarrow> awaiting w ls tm (timerFired w' s)"
  by (simp add: timerFired_def awaiting_def settle_other split: option.splits)

lemma call_elsewhere:
  assumes t: "tracked w ls tm s" and a: "awaiting w ls tm s"
  shows "awaiting w ls tm (call rewrite c s)"
proof -
  have "tracked w ls tm (call rewrite c s)"
    using t by (rule call_tracked)
  moreover have "waiter_outcome (call rewrite c s) w = Pending"
  proof (cases c)
    case (CallWaitForEvent event oop)
    have "w \<noteq> nextWaiter s"
      using t by (auto simp add: tracked_def)
    then show ?thesis
      using a CallWaitForEvent by (simp add: waitForEvent_eq waiter_outcome_def awaiting_def)
  next
    case (ResumeWaitForEvent w')
    show ?thesis
    proof (cases "w' = w")
      case True
      then show ?thesis
        using a ResumeWaitForEvent by (simp add: waitForEvent_resume_def awaiting_outcome)
    next
      case False
      then have "waiters (dispose w' s) w = waiters s w"
        by (simp add: dispose_def split: option.splits)
      then have "waiter_outcome (dispose w' s) w = Pending"
        using a by (simp add: waiter_outcome_def awaiting_def)
      then show ?thesis
        using a ResumeWaitForEvent
        by (cases "waiter_outcome s w'") (simp_all add: waitForEvent_resume_def awaiting_outcome)
    qed
  next
    case (CallRoute url handler tms)
    then show ?thesis
      using a by (simp add: route_def wrapApiCall_snd Let_def send_def log_def
          waiter_outcome_def awaiting_def)
  next
    case (CallUnroute url handler)
    then show ?thesis
      using a by (simp add: unroute_def wrapApiCall_snd Let_def send_def log_def
          waiter_outcome_def awaiting_def)
  next
    case (CallExposeBinding name cb h)
    then show ?thesis
      using a by (simp add: exposeBinding_def wrapApiCall_snd send_def log_def
          waiter_outcome_def awaiting_def split: sum.splits)
  next
    case (CallExposeFunction name cb)
    then show ?thesis
      using a by (simp add: exposeFunction_def wrapApiCall_snd send_def log_def
          waiter_outcome_def awaiting_def split: sum.splits)
  qed
  ultimately show ?thesis
    by (intro tracked_pending)
qed

lemma occur_elsewhere:
  assumes "tracked w ls tm s" "awaiting w ls tm s"
    and "\<forall>l\<in>set ls. l_event l = Events_BrowserContext_Close"
    and "oc \<noteq> Push CloseEvent" "oc \<noteq> TimerFired w"
  shows "awaiting w ls tm (occur rewrite matches oc s)"
  using assms
  by (cases oc) (auto simp add: channel_on_elsewhere timerFired_elsewhere call_elsewhere)

lemma run_elsewhere:
  assumes "tracked w ls tm s" "awaiting w ls tm s"
    and "\<forall>l\<in>set ls. l_event l = Events_BrowserContext_Close"
    and "Push CloseEvent \<notin> set occs" "TimerFired w \<notin> set occs"
  shows "awaiting w ls tm (run rewrite matches occs s)"
  using assms unfolding run_def
proof (induction occs arbitrary: s)
  case Nil
  then show ?case by simp
next
  case (Cons oc occs)
  have "awaiting w ls tm (occur rewrite matches oc s)"
    using Cons.prems by (intro occur_elsewhere) auto
  moreover have "tracked w ls tm (occur rewrite matches oc s)"
    using Cons.prems(1) by (rule occur_tracked)
  ultimately show ?case
    using Cons.IH Cons.prems by simp
qed

lemma timerFired_awaiting:
  "awaiting w ls (Some (d, msg)) s \<Longrightarrow>
     waiter_outcome (timerFired w s) w = Rejected (TimeoutError msg)"
  by (simp add: timerFired_def awaiting_def waiter_outcome_def settle_pending)

text \<open>
  Claim C10, amended. \<^verbatim>\<open>waitForEvent\<close> for the close event installs no guard on its
  waiter. Until the close event arrives or the timer of the waiter fires, the call is
  pending, whatever else happens to the context. When the close event arrives while the
  waiter is pending, the call resolves with the payload of the close event (the context) if
  the predicate, when one is given, accepts that payload, and stays pending otherwise; it is
  never rejected with \<^verbatim>\<open>Context closed\<close>. When the timer fires while the waiter is pending,
  the call is rejected with the timeout error, and that is the only error the call can ever
  be rejected with.
\<close>

theorem C10_wait_for_close:
  "wellformed s \<longrightarrow>
     (\<forall>ev once e. Listener ev once (WaiterGuard (fst (waitForEvent Events_BrowserContext_Close oop s)) e)
          \<notin> set (listeners (snd (waitForEvent Events_BrowserContext_Close oop s))))
     \<and> (\<forall>occs.
           Push CloseEvent \<notin> set occs
           \<and> TimerFired (fst (waitForEvent Events_BrowserContext_Close oop s)) \<notin> set occs
           \<longrightarrow> fst (waitForEvent_resume rewrite (fst (waitForEvent Events_BrowserContext_Close oop s))
                      (run rewrite matches occs (snd (waitForEvent Events_BrowserContext_Close oop s))))
                 = Pending)
     \<and> (\<forall>occs.
           waiter_outcome (run rewrite matches occs (snd (waitForEvent Events_BrowserContext_Close oop s)))
               (fst (waitForEvent Events_BrowserContext_Close oop s)) = Pending
           \<longrightarrow> fst (waitForEvent_resume rewrite (fst (waitForEvent Events_BrowserContext_Close oop s))
                      (channel_on matches CloseEvent
                         (run rewrite matches occs (snd (waitForEvent Events_BrowserContext_Close oop s)))))
                 = (if accepts (wait_predicate oop) (PContext (guid s))
                    then Resolved (PContext (guid s)) else Pending))
     \<and> (\<forall>occs.
           waiter_outcome (run rewrite matches occs (snd (waitForEvent Events_BrowserContext_Close oop s)))
               (fst (waitForEvent Events_BrowserContext_Close oop s)) = Pending
           \<longrightarrow> fst (waitForEvent_resume rewrite (fst (waitForEvent Events_BrowserContext_Close oop s))
                      (timerFired (fst (waitForEvent Events_BrowserContext_Close oop s))
                         (run rewrite matches occs (snd (waitForEvent Events_BrowserContext_Close oop s)))))
                 = Rejected (rewrite (TimeoutError (wait_message Events_BrowserContext_Close))))
     \<and> (\<forall>occs e.
           fst (waitForEvent_resume rewrite (fst (waitForEvent Events_BrowserContext_Close oop s))
                  (run rewrite matches occs (snd (waitForEvent Events_BrowserContext_Close oop s))))
             = Rejected e
           \<longrightarrow> e = rewrite (TimeoutError (wait_message Events_BrowserContext_Close)))"
proof (intro impI)
  assume h: "wellformed s"
  let ?C = Events_BrowserContext_Close
  let ?w = "nextWaiter s"
  let ?s1 = "snd (waitForEvent ?C oop s)"
  let ?ls = "[Listener ?C False (WaiterTarget ?w (wait_predicate oop))]"
  let ?tm = "Some (wait_timeout oop s, wait_message ?C)"
  have w: "fst (waitForEvent ?C oop s) = ?w"
    by (simp add: waitForEvent_eq)
  have b: "wait_branches ?w ?C oop = ?ls"
    by (simp add: wait_branches_def)
  have t1: "tracked ?w ?ls ?tm ?s1" and a1: "awaiting ?w ?ls ?tm ?s1"
    using h waitForEvent_tracked [of s ?C oop] by (simp_all only: b)
  have aw: "awaiting ?w ?ls ?tm (run rewrite matches occs ?s1)"
    if "waiter_outcome (run rewrite matches occs ?s1) ?w = Pending" for occs
    using t1 that by (intro tracked_pending run_tracked)
  have noguard: "Listener ev once (WaiterGuard ?w e) \<notin> set (listeners ?s1)" for ev once e
  proof
    assume "Listener ev once (WaiterGuard ?w e) \<in> set (listeners ?s1)"
    then have "Listener ev once (WaiterGuard ?w e) \<in> set (filter (owned_by ?w) (listeners ?s1))"
      by (simp add: owned_by_def)
    moreover have "filter (owned_by ?w) (listeners ?s1) = ?ls"
      using a1 by (simp add: awaiting_def)
    ultimately have "Listener ev once (WaiterGuard ?w e) \<in> set ?ls"
      by (simp only:)
    then show False
      by simp
  qed
  have before: "fst (waitForEvent_resume rewrite ?w (run rewrite matches occs ?s1)) = Pending"
    if "Push CloseEvent \<notin> set occs \<and> TimerFired ?w \<notin> set occs" for occs
  proof -
    have "awaiting ?w ?ls ?tm (run rewrite matches occs ?s1)"
      using t1 a1 that by (intro run_elsewhere) simp_all
    then show ?thesis
      by (simp add: waitForEvent_resume_def awaiting_outcome)
  qed
  have closing: "fst (waitForEvent_resume rewrite ?w
                        (channel_on matches CloseEvent (run rewrite matches occs ?s1)))
                 = (if accepts (wait_predicate oop) (PContext (guid s))
                    then Resolved (PContext (guid s)) else Pending)"
    if "waiter_outcome (run rewrite matches occs ?s1) ?w = Pending" for occs
  proof -
    have "waiter_outcome (onClose (run rewrite matches occs ?s1)) ?w =
                 verdict ?w (PContext (guid (run rewrite matches occs ?s1)))
                   (filter (\<lambda>l. l_event l = ?C) ?ls)"
      using aw [OF that] by (rule onClose_verdict)
    moreover have "guid (run rewrite matches occs ?s1) = guid s"
      by (simp add: waitForEvent_eq)
    ultimately have "waiter_outcome (onClose (run rewrite matches occs ?s1)) ?w =
        (if accepts (wait_predicate oop) (PContext (guid s))
         then Resolved (PContext (guid s)) else Pending)"
      by simp
    then show ?thesis
      by (simp add: waitForEvent_resume_def)
  qed
  have timing: "fst (waitForEvent_resume rewrite ?w (timerFired ?w (run rewrite matches occs ?s1)))
                 = Rejected (rewrite (TimeoutError (wait_message ?C)))"
    if "waiter_outcome (run rewrite matches occs ?s1) ?w = Pending" for occs
    using aw [OF that] by (simp add: waitForEvent_resume_def timerFired_awaiting)
  have timeout_only: "e = rewrite (TimeoutError (wait_message ?C))"
    if r: "fst (waitForEvent_resume rewrite ?w (run rewrite matches occs ?s1)) = Rejected e" for occs e
  proof -
    let ?s2 = "run rewrite matches occs ?s1"
    from r obtain e' where o: "waiter_outcome ?s2 ?w = Rejected e'" and e: "e = rewrite e'"
      by (auto simp add: waitForEvent_resume_def split: outcome.splits)
    have "tracked ?w ?ls ?tm ?s2"
      using t1 by (rule run_tracked)
    then have "justified ?w ?ls ?tm (waiter_outcome ?s2 ?w)"
      using o by (intro tracked_outcome) simp_all
    then have "e' = TimeoutError (wait_message ?C)"
      using o by (simp add: justified_def)
    then show ?thesis
      using e by simp
  qed
  show "(\<forall>ev once e. Listener ev once (WaiterGuard (fst (waitForEvent ?C oop s)) e)
          \<notin> set (listeners (snd (waitForEvent ?C oop s))))
     \<and> (\<forall>occs.
           Push CloseEvent \<notin> set occs
           \<and> TimerFired (fst (waitForEvent ?C oop s)) \<notin> set occs
           \<longrightarrow> fst (waitForEvent_resume rewrite (fst (waitForEvent ?C oop s))
                      (run rewrite matches occs (snd (waitForEvent ?C oop s))))
                 = Pending)
     \<and> (\<forall>occs.
           waiter_outcome (run rewrite matches occs (snd (waitForEvent ?C oop s)))
               (fst (waitForEvent ?C oop s)) = Pending
           \<longrightarrow> fst (waitForEvent_resume rewrite (fst (waitForEvent ?C oop s))
                      (channel_on matches CloseEvent
                         (run rewrite matches occs (snd (waitForEvent ?C oop s)))))
                 = (if accepts (wait_predicate oop) (PContext (guid s))
                    then Resolved (PContext (guid s)) else Pending))
     \<and> (\<forall>occs.
           waiter_outcome (run rewrite matches occs (snd (waitForEvent ?C oop s)))
               (fst (waitForEvent ?C oop s)) = Pending
           \<longrightarrow> fst (waitForEvent_resume rewrite (fst (waitForEvent ?C oop s))
                      (timerFired (fst (waitForEvent ?C oop s))
                         (run rewrite matches occs (snd (waitForEvent ?C oop s)))))
                 = Rejected (rewrite (TimeoutError (wait_message ?C))))
     \<and> (\<forall>occs e.
           fst (waitForEvent_resume rewrite (fst (waitForEvent ?C oop s))
                  (run rewrite matches occs (snd (waitForEvent ?C oop s))))
             = Rejected e
           \<longrightarrow> e = rewrite (TimeoutError (wait_message ?C)))"
    unfolding w
    apply (intro conjI allI impI)
    subgoal by (rule noguard)
    subgoal by (rule before)
    subgoal by (rule closing)
    subgoal by (rule timing)
    subgoal by (rule timeout_only)
    done
qed

subsection \<open>close\<close>

lemma deliver_fields [simp]:
  "closed (deliver p l s) = closed s"
  "browser_contexts (deliver p l s) = browser_contexts s"
  "browserType_contexts (deliver p l s) = browserType_contexts s"
  "browser (deliver p l s) = browser s"
  "browserType (deliver p l s) = browserType s"
  by (simp_all add: deliver_def Let_def settle_def log_def
      split: action.splits option.splits outcome.splits)

lemma fold_deliver_fields [simp]:
  "closed (fold (deliver p) L s) = closed s"
  "browser_contexts (fold (deliver p) L s) = browser_contexts s"
  "browserType_contexts (fold (deliver p) L s) = browserType_contexts s"
  by (induction L arbitrary: s) simp_all

lemma emit_fields [simp]:
  "closed (emit ev p s) = closed s"
  "browser_contexts (emit ev p s) = browser_contexts s"
  "browserType_contexts (emit ev p s) = browserType_contexts s"
  by (simp_all add: emit_def log_def)

lemma emissions_update [simp]:
  "emissions (s\<lparr>closed := a\<rparr>) = emissions s"
  "emissions (s\<lparr>browser_contexts := d\<rparr>) = emissions s"
  "emissions (s\<lparr>browserType_contexts := e\<rparr>) = emissions s"
  by (simp_all add: emissions_def)












subsection \<open>Every reachable context is well-formed\<close>

lemma wellformed_update [simp]:
  "wellformed (s\<lparr>closed := a\<rparr>) = wellformed s"
  "wellformed (s\<lparr>pages := b\<rparr>) = wellformed s"
  "wellformed (s\<lparr>backgroundPages := b\<rparr>) = wellformed s"
  "wellformed (s\<lparr>serviceWorkers := c\<rparr>) = wellformed s"
  "wellformed (s\<lparr>browser_contexts := d\<rparr>) = wellformed s"
  "wellformed (s\<lparr>browserType_contexts := e\<rparr>) = wellformed s"
  "wellformed (s\<lparr>routes := f\<rparr>) = wellformed s"
  "wellformed (s\<lparr>bindings := g\<rparr>) = wellformed s"
  "wellformed (s\<lparr>browserType := h\<rparr>) = wellformed s"
  "wellformed (log ef s) = wellformed s"
  "wellformed (page_emit pg ev p s) = wellformed s"
  by (simp_all add: wellformed_def log_def page_emit_def)

lemma wellformed_constructor: "wellformed (constructor parent g ts ch bcs btcs)"
  by (simp add: wellformed_def constructor_def once_def owned_by_def)

lemma emit_wellformed: "wellformed s \<Longrightarrow> wellformed (emit ev p s)"
  by (simp add: emit_def fold_deliver_wellformed)

lemma onRoute_loop_wellformed:
  "wellformed s \<Longrightarrow> onRoute_loop matches hs r req s = Some s' \<Longrightarrow> wellformed s'"
  by (induction hs) (auto simp add: handle_def split: if_splits)

lemma channel_on_wellformed: "wellformed s \<Longrightarrow> wellformed (channel_on matches ev s)"
proof (cases ev)
  case (RouteEvent r req)
  assume "wellformed s"
  then show ?thesis
    using RouteEvent
    by (auto simp add: onRoute_def onRoute_loop_wellformed send_def floating_def catch_def
        split: option.splits sum.splits)
qed (auto simp add: onBinding_def bindingCall_call_def floating_def Let_def onClose_def onPage_def
      onRequest_def onResponse_def onRequestFailed_def onRequestFinished_def
      split: option.splits sum.splits prod.splits intro!: emit_wellformed)

lemma call_wellformed: "wellformed s \<Longrightarrow> wellformed (call rewrite c s)"
proof (cases c)
  case (ResumeWaitForEvent w')
  assume "wellformed s"
  then show ?thesis
    using ResumeWaitForEvent
    by (cases "waiter_outcome s w'") (simp_all add: waitForEvent_resume_def dispose_wellformed)
qed (simp_all add: waitForEvent_wellformed route_def unroute_def exposeBinding_def
      exposeFunction_def wrapApiCall_snd Let_def send_def split: sum.splits)

lemma occur_wellformed: "wellformed s \<Longrightarrow> wellformed (occur rewrite matches oc s)"
proof (cases oc)
  case (TimerFired w)
  assume "wellformed s"
  then show ?thesis
    using TimerFired by (auto simp add: timerFired_def settle_wellformed split: option.splits)
qed (simp_all add: channel_on_wellformed call_wellformed)

lemma run_wellformed: "wellformed s \<Longrightarrow> wellformed (run rewrite matches occs s)"
  unfolding run_def by (induction occs arbitrary: s) (simp_all add: occur_wellformed)

lemma setBrowserType_wellformed: "wellformed s \<Longrightarrow> wellformed (snd (setBrowserType t s))"
  by (simp add: setBrowserType_def Let_def split: option.splits)

lemma demo_context_wellformed: "wellformed demo_context"
  by (simp add: wellformed_def demo_context_def constructor_def once_def owned_by_def)

lemma demo_context_fields:
  "nextWaiter demo_context = 0" "guid demo_context = ''context@1''"
  "listeners demo_context = [Listener Events_BrowserContext_Close True ResolveClosedPromise]"
  "waiters demo_context = Map.empty" "browser demo_context = Some 0"
  "browser_contexts demo_context = (\<lambda>b. {''context@1''})"
  "closedPromise demo_context = False"
  by (simp_all add: demo_context_def constructor_def once_def)

lemma demo_pending:
  "waiter_outcome (run id demo_matches [Push (RequestEvent demo_request None)]
                     (snd (waitForEvent ''page'' demo_options demo_context))) 0 = Pending"
  by (simp add: run_def onRequest_def emit_def waitForEvent_eq demo_context_fields
      wait_branches_def Events_BrowserContext_Close_def Events_BrowserContext_Request_def
      log_def waiter_outcome_def)

theorem C2_close_aborts_wait_witness:
  "fst (waitForEvent_resume id 0
          (channel_on demo_matches CloseEvent
             (run id demo_matches [Push (RequestEvent demo_request None)]
                (snd (waitForEvent ''page'' demo_options demo_context)))))
     = Rejected (Error ''Context closed'')"
proof -
  have ne: "''page'' \<noteq> Events_BrowserContext_Close"
    by (simp add: Events_BrowserContext_Close_def)
  have w: "fst (waitForEvent ''page'' demo_options demo_context) = 0"
    by (simp add: waitForEvent_eq demo_context_fields)
  show ?thesis
    using C2_close_aborts_wait [where s = demo_context and event = "''page''"
        and oop = demo_options and matches = demo_matches and rewrite = id,
        THEN mp, OF conjI, OF demo_context_wellformed ne, THEN conjunct2, THEN conjunct1,
        THEN spec, of "[Push (RequestEvent demo_request None)]"]
      demo_pending
    unfolding w by (simp del: channel_on.simps)
qed

lemma demo_wait_close:
  "fst (waitForEvent Events_BrowserContext_Close oop demo_context) = 0"
  "guid demo_context = ''context@1''"
  by (simp_all add: waitForEvent_eq demo_context_fields)

theorem C10_wait_for_close_witness:
  "fst (waitForEvent_resume id 0
          (run id demo_matches [Push (RequestEvent demo_request None), TimerFired 1]
             (snd (waitForEvent Events_BrowserContext_Close demo_options demo_context))))
     = Pending
   \<and> fst (waitForEvent_resume id 0
          (channel_on demo_matches CloseEvent
             (run id demo_matches [Push (RequestEvent demo_request None), TimerFired 1]
                (snd (waitForEvent Events_BrowserContext_Close demo_options demo_context)))))
     = Resolved (PContext ''context@1'')
   \<and> fst (waitForEvent_resume id 0
          (timerFired 0
             (run id demo_matches [Push (RequestEvent demo_request None), TimerFired 1]
                (snd (waitForEvent Events_BrowserContext_Close demo_options demo_context)))))
     = Rejected (TimeoutError (wait_message Events_BrowserContext_Close))"
proof -
  let ?occs = "[Push (RequestEvent demo_request None), TimerFired 1]"
  let ?s2 = "run id demo_matches ?occs
               (snd (waitForEvent Events_BrowserContext_Close demo_options demo_context))"
  note inst = C10_wait_for_close [where s = demo_context and oop = demo_options
        and matches = demo_matches and rewrite = id, THEN mp, OF demo_context_wellformed,
        unfolded demo_wait_close]
  have q: "Push CloseEvent \<notin> set ?occs \<and> TimerFired 0 \<notin> set ?occs"
    by simp
  have r: "fst (waitForEvent_resume id 0 ?s2) = Pending"
    using inst [THEN conjunct2, THEN conjunct1, THEN spec, of ?occs] q by blast
  then have p: "waiter_outcome ?s2 0 = Pending"
    by (simp add: waitForEvent_resume_def split: outcome.splits)
  have a: "accepts (wait_predicate demo_options) (PContext ''context@1'')"
    by (simp add: accepts_def wait_predicate_def demo_options_def)
  have c: "fst (waitForEvent_resume id 0 (channel_on demo_matches CloseEvent ?s2))
             = Resolved (PContext ''context@1'')"
    using inst [THEN conjunct2, THEN conjunct2, THEN conjunct1, THEN spec, of ?occs] p a
    by (simp del: channel_on.simps)
  have t: "fst (waitForEvent_resume id 0 (timerFired 0 ?s2))
             = Rejected (TimeoutError (wait_message Events_BrowserContext_Close))"
    using inst [THEN conjunct2, THEN conjunct2, THEN conjunct2, THEN conjunct1, THEN spec, of ?occs] p
    by simp
  show ?thesis
    using r c t by (intro conjI)
qed

text \<open>
  The claim as stated fails for a predicate that refuses the payload: the close event
  arrives and the call is still pending.
\<close>

theorem C10_wait_for_close_counterexample:
  "fst (waitForEvent_resume id 0
          (channel_on demo_matches CloseEvent
             (snd (waitForEvent Events_BrowserContext_Close (IsFunction demo_reject) demo_context))))
     = Pending"
proof -
  let ?C = Events_BrowserContext_Close
  let ?oop = "IsFunction demo_reject"
  let ?s1 = "snd (waitForEvent ?C ?oop demo_context)"
  have "awaiting 0 (wait_branches 0 ?C ?oop)
          (Some (wait_timeout ?oop demo_context, wait_message ?C)) ?s1"
    using waitForEvent_tracked(2) [OF demo_context_wellformed, of ?C ?oop]
    by (simp only: demo_context_fields)
  then have "waiter_outcome (onClose ?s1) 0 =
               verdict 0 (PContext (guid ?s1)) (filter (\<lambda>l. l_event l = ?C) (wait_branches 0 ?C ?oop))"
    by (rule onClose_verdict)
  then have "waiter_outcome (onClose ?s1) 0 = Pending"
    by (simp add: wait_branches_def wait_predicate_def accepts_def demo_reject_def)
  then show ?thesis
    by (simp add: waitForEvent_resume_def)
qed


end
